theory Spec2Isabelle
  imports Main
begin

section \<open>Python values used by \<^verbatim>\<open>src/todo.py\<close>\<close>

text \<open>
  A Python \<^verbatim>\<open>str\<close> is a sequence of code points, so it is a list of naturals here; the
  bytes of a file are a \<^typ>\<open>string\<close> (Isabelle characters are 8-bit). \<open>ascii\<close> reads a
  literal of the source as a Python string.
\<close>

type_synonym pystr = "nat list"
type_synonym bytes = "string"
type_synonym path = "string"

definition ascii :: "string \<Rightarrow> pystr" where
  "ascii s = map of_char s"

text \<open>
  The exceptions the program can let escape. \<open>Unmodelled\<close> is not a Python exception: it
  marks the places where Python computes with values this embedding does not describe
  (floating point numbers, the \<^verbatim>\<open>repr\<close> of a container, the ordering of two lists). No
  theorem below counts it as a normal return.
\<close>

datatype py_error =
    OSError | UnicodeDecodeError | UnicodeEncodeError | JSONDecodeError
  | TypeError | AttributeError | Unmodelled

text \<open>
  What \<^verbatim>\<open>json.load\<close> returns: \<^verbatim>\<open>None\<close>, a bool, an int (unbounded), a str, a list or a
  dict. A dict keeps its keys in insertion order, so it is an association list; the
  dicts Python builds never repeat a key (\<open>wf_json\<close>).
\<close>

datatype json =
    JNull
  | JBool bool
  | JInt int
  | JStr pystr
  | JArr "json list"
  | JObj "(pystr \<times> json) list"

fun wf_json :: "json \<Rightarrow> bool" and wf_members :: "(pystr \<times> json) list \<Rightarrow> bool"
  and wf_items :: "json list \<Rightarrow> bool" where
  "wf_json (JArr xs) = wf_items xs"
| "wf_json (JObj kvs) = (distinct (map fst kvs) \<and> wf_members kvs)"
| "wf_json _ = True"
| "wf_members [] = True"
| "wf_members (kv # kvs) = (wf_json (snd kv) \<and> wf_members kvs)"
| "wf_items [] = True"
| "wf_items (x # xs) = (wf_json x \<and> wf_items xs)"

subsection \<open>UTF-8, as \<^verbatim>\<open>open(path, mode, encoding="utf-8")\<close> applies it\<close>

text \<open>
  Writing encodes each code point; a surrogate (\<open>0xD800..0xDFFF\<close>) has no UTF-8 form and
  makes the write raise \<^verbatim>\<open>UnicodeEncodeError\<close> (\<open>None\<close> here).
\<close>

definition utf8_enc1 :: "nat \<Rightarrow> bytes option" where
  "utf8_enc1 cp =
     (if cp < 0x80 then Some [char_of cp]
      else if cp < 0x800 then
        Some [char_of (0xC0 + cp div 64), char_of (0x80 + cp mod 64)]
      else if cp < 0x10000 then
        (if 0xD800 \<le> cp \<and> cp \<le> 0xDFFF then None
         else Some [char_of (0xE0 + cp div 4096), char_of (0x80 + cp div 64 mod 64),
                    char_of (0x80 + cp mod 64)])
      else if cp < 0x110000 then
        Some [char_of (0xF0 + cp div 262144), char_of (0x80 + cp div 4096 mod 64),
              char_of (0x80 + cp div 64 mod 64), char_of (0x80 + cp mod 64)]
      else None)"

fun utf8_encode :: "pystr \<Rightarrow> bytes option" where
  "utf8_encode [] = Some []"
| "utf8_encode (cp # cps) =
     (case utf8_enc1 cp of None \<Rightarrow> None
      | Some bs \<Rightarrow> (case utf8_encode cps of None \<Rightarrow> None | Some rest \<Rightarrow> Some (bs @ rest)))"

text \<open>
  Reading decodes strictly: a stray continuation byte, a truncated or overlong sequence,
  an encoded surrogate or a value above \<open>0x10FFFF\<close> raises \<^verbatim>\<open>UnicodeDecodeError\<close>
  (\<open>None\<close> here).
\<close>

definition is_cont :: "char \<Rightarrow> bool" where
  "is_cont c = (0x80 \<le> (of_char c :: nat) \<and> (of_char c :: nat) < 0xC0)"

definition cont_bits :: "char \<Rightarrow> nat" where
  "cont_bits c = of_char c - 0x80"

fun utf8_decode :: "bytes \<Rightarrow> pystr option" where
  "utf8_decode [] = Some []"
| "utf8_decode (c # cs) =
     (let b0 = (of_char c :: nat) in
      if b0 < 0x80 then map_option (Cons b0) (utf8_decode cs)
      else if b0 < 0xC0 then None
      else if b0 < 0xE0 then
        (case cs of
           c1 # r \<Rightarrow>
             (let cp = (b0 - 0xC0) * 64 + cont_bits c1 in
              if is_cont c1 \<and> 0x80 \<le> cp then map_option (Cons cp) (utf8_decode r) else None)
         | _ \<Rightarrow> None)
      else if b0 < 0xF0 then
        (case cs of
           c1 # c2 # r \<Rightarrow>
             (let cp = (b0 - 0xE0) * 4096 + cont_bits c1 * 64 + cont_bits c2 in
              if is_cont c1 \<and> is_cont c2 \<and> 0x800 \<le> cp \<and> \<not> (0xD800 \<le> cp \<and> cp \<le> 0xDFFF)
              then map_option (Cons cp) (utf8_decode r) else None)
         | _ \<Rightarrow> None)
      else if b0 < 0xF8 then
        (case cs of
           c1 # c2 # c3 # r \<Rightarrow>
             (let cp = (b0 - 0xF0) * 262144 + cont_bits c1 * 4096 + cont_bits c2 * 64
                       + cont_bits c3 in
              if is_cont c1 \<and> is_cont c2 \<and> is_cont c3 \<and> 0x10000 \<le> cp \<and> cp < 0x110000
              then map_option (Cons cp) (utf8_decode r) else None)
         | _ \<Rightarrow> None)
      else None)"

subsection \<open>\<^verbatim>\<open>json.dump(tasks, f, indent=2, ensure_ascii=False)\<close>\<close>

abbreviation (input) QUOTE :: nat where "QUOTE \<equiv> 34"
abbreviation (input) BACKSLASH :: nat where "BACKSLASH \<equiv> 92"
abbreviation (input) COMMA :: nat where "COMMA \<equiv> 44"
abbreviation (input) COLON :: nat where "COLON \<equiv> 58"
abbreviation (input) MINUS :: nat where "MINUS \<equiv> 45"
abbreviation (input) LBRACKET :: nat where "LBRACKET \<equiv> 91"
abbreviation (input) RBRACKET :: nat where "RBRACKET \<equiv> 93"
abbreviation (input) LBRACE :: nat where "LBRACE \<equiv> 123"
abbreviation (input) RBRACE :: nat where "RBRACE \<equiv> 125"

text \<open>\<^verbatim>\<open>str(n)\<close> of an int: decimal digits, a minus sign before a negative one.\<close>

function str_nat :: "nat \<Rightarrow> pystr" where
  "str_nat n = (if n < 10 then [48 + n] else str_nat (n div 10) @ [48 + n mod 10])"
  by pat_completeness auto
termination
  by (relation "measure id") auto

declare str_nat.simps [simp del]

definition str_int :: "int \<Rightarrow> pystr" where
  "str_int i = (if i < 0 then MINUS # str_nat (nat (- i)) else str_nat (nat i))"

text \<open>
  With \<^verbatim>\<open>ensure_ascii=False\<close> the encoder escapes the quote, the backslash and the
  control characters below \<open>0x20\<close> (\<^verbatim>\<open>\b \f \n \r \t\<close> by name, the others as
  \<^verbatim>\<open>\u00xx\<close> in lower-case hexadecimal) and writes every other code point as it is.
\<close>

definition hexdigit :: "nat \<Rightarrow> nat" where
  "hexdigit d = (if d < 10 then 48 + d else 87 + d)"

definition encode_char :: "nat \<Rightarrow> pystr" where
  "encode_char c =
     (if c = QUOTE then [BACKSLASH, QUOTE]
      else if c = BACKSLASH then [BACKSLASH, BACKSLASH]
      else if c = 8 then [BACKSLASH, 98]
      else if c = 12 then [BACKSLASH, 102]
      else if c = 10 then [BACKSLASH, 110]
      else if c = 13 then [BACKSLASH, 114]
      else if c = 9 then [BACKSLASH, 116]
      else if c < 0x20 then [BACKSLASH, 117, 48, 48, hexdigit (c div 16), hexdigit (c mod 16)]
      else [c])"

definition encode_basestring :: "pystr \<Rightarrow> pystr" where
  "encode_basestring s = QUOTE # concat (map encode_char s) @ [QUOTE]"

text \<open>
  \<open>newline_indent level\<close> is the line break and the two spaces per nesting level that
  \<^verbatim>\<open>indent=2\<close> puts before every item; items are separated by \<^verbatim>\<open>","\<close>, a key from
  its value by \<^verbatim>\<open>": "\<close>, and an empty list or dict is written \<^verbatim>\<open>[]\<close> or \<^verbatim>\<open>{}\<close>.
\<close>

definition newline_indent :: "nat \<Rightarrow> pystr" where
  "newline_indent level = 10 # replicate (2 * level) 32"

fun iterencode :: "nat \<Rightarrow> json \<Rightarrow> pystr"
  and iterencode_list :: "nat \<Rightarrow> json list \<Rightarrow> pystr"
  and iterencode_dict :: "nat \<Rightarrow> (pystr \<times> json) list \<Rightarrow> pystr" where
  "iterencode level JNull = ascii ''null''"
| "iterencode level (JBool b) = (if b then ascii ''true'' else ascii ''false'')"
| "iterencode level (JInt i) = str_int i"
| "iterencode level (JStr s) = encode_basestring s"
| "iterencode level (JArr xs) =
     (if xs = [] then ascii ''[]''
      else LBRACKET # newline_indent (Suc level) @ iterencode_list (Suc level) xs
           @ newline_indent level @ [RBRACKET])"
| "iterencode level (JObj kvs) =
     (if kvs = [] then ascii ''{}''
      else LBRACE # newline_indent (Suc level) @ iterencode_dict (Suc level) kvs
           @ newline_indent level @ [RBRACE])"
| "iterencode_list level [] = []"
| "iterencode_list level (x # xs) =
     iterencode level x
     @ (if xs = [] then [] else COMMA # newline_indent level @ iterencode_list level xs)"
| "iterencode_dict level [] = []"
| "iterencode_dict level (kv # kvs) =
     encode_basestring (fst kv) @ ascii '': '' @ iterencode level (snd kv)
     @ (if kvs = [] then [] else COMMA # newline_indent level @ iterencode_dict level kvs)"

definition json_dumps :: "json \<Rightarrow> pystr" where
  "json_dumps v = iterencode 0 v"

subsection \<open>\<^verbatim>\<open>json.load(f)\<close>\<close>

text \<open>
  The decoder of the standard library, on the text read from the file: whitespace is
  space, tab, line feed and carriage return; a string may not hold a raw control
  character; \<^verbatim>\<open>\uXXXX\<close> escapes are read in either case and a high surrogate followed
  by an escaped low surrogate is one code point; an integer is \<^verbatim>\<open>-?(0|[1-9][0-9]*)\<close>.
  \<open>None\<close> stands for \<^verbatim>\<open>JSONDecodeError\<close>.
\<close>

definition is_ws :: "nat \<Rightarrow> bool" where
  "is_ws c = (c = 32 \<or> c = 9 \<or> c = 10 \<or> c = 13)"

definition skip_ws :: "pystr \<Rightarrow> pystr" where
  "skip_ws s = dropWhile is_ws s"

definition is_digit :: "nat \<Rightarrow> bool" where
  "is_digit c = (48 \<le> c \<and> c \<le> 57)"

definition hexval :: "nat \<Rightarrow> nat option" where
  "hexval c =
     (if 48 \<le> c \<and> c \<le> 57 then Some (c - 48)
      else if 97 \<le> c \<and> c \<le> 102 then Some (c - 87)
      else if 65 \<le> c \<and> c \<le> 70 then Some (c - 55)
      else None)"

fun decode_uXXXX :: "pystr \<Rightarrow> (nat \<times> pystr) option" where
  "decode_uXXXX (a # b # c # d # r) =
     (case (hexval a, hexval b, hexval c, hexval d) of
        (Some x3, Some x2, Some x1, Some x0) \<Rightarrow> Some (((x3 * 16 + x2) * 16 + x1) * 16 + x0, r)
      | _ \<Rightarrow> None)"
| "decode_uXXXX _ = None"

definition backslash_char :: "nat \<Rightarrow> nat option" where
  "backslash_char e =
     (if e = QUOTE then Some QUOTE
      else if e = BACKSLASH then Some BACKSLASH
      else if e = 47 then Some 47
      else if e = 98 then Some 8
      else if e = 102 then Some 12
      else if e = 110 then Some 10
      else if e = 114 then Some 13
      else if e = 116 then Some 9
      else None)"

text \<open>The escaped low surrogate that may follow a high surrogate \<open>uni\<close>.\<close>

definition low_surrogate :: "nat \<Rightarrow> pystr \<Rightarrow> (nat \<times> pystr) option" where
  "low_surrogate uni r =
     (if 0xD800 \<le> uni \<and> uni \<le> 0xDBFF then
        (case r of
           b # u # r' \<Rightarrow>
             (if b = BACKSLASH \<and> u = 117 then
                (case decode_uXXXX r' of
                   Some (uni2, r2) \<Rightarrow>
                     if 0xDC00 \<le> uni2 \<and> uni2 \<le> 0xDFFF
                     then Some (0x10000 + (uni - 0xD800) * 1024 + (uni2 - 0xDC00), r2)
                     else None
                 | None \<Rightarrow> None)
              else None)
         | _ \<Rightarrow> None)
      else None)"

definition cons_char :: "nat \<Rightarrow> (pystr \<times> pystr) option \<Rightarrow> (pystr \<times> pystr) option" where
  "cons_char c res = map_option (\<lambda>(s, rest). (c # s, rest)) res"

lemma decode_uXXXX_length:
  "decode_uXXXX r = Some (uni, r1) \<Longrightarrow> length r1 < length r"
  by (induction r rule: decode_uXXXX.induct) (auto split: option.splits)

lemma low_surrogate_length:
  "low_surrogate uni r = Some (cp, r2) \<Longrightarrow> length r2 < length r"
  by (auto simp: low_surrogate_def split: if_splits list.splits option.splits
           dest: decode_uXXXX_length)

text \<open>\<open>scanstring s\<close> reads a string literal after its opening quote.\<close>

function scanstring :: "pystr \<Rightarrow> (pystr \<times> pystr) option" where
  "scanstring [] = None"
| "scanstring (c # cs) =
     (if c = QUOTE then Some ([], cs)
      else if c = BACKSLASH then
        (case cs of
           [] \<Rightarrow> None
         | e # r \<Rightarrow>
             if e = 117 then
               (case decode_uXXXX r of
                  None \<Rightarrow> None
                | Some (uni, r1) \<Rightarrow>
                    (case low_surrogate uni r1 of
                       Some (cp, r2) \<Rightarrow> cons_char cp (scanstring r2)
                     | None \<Rightarrow> cons_char uni (scanstring r1)))
             else
               (case backslash_char e of
                  None \<Rightarrow> None
                | Some ch \<Rightarrow> cons_char ch (scanstring r)))
      else if c < 0x20 then None
      else cons_char c (scanstring cs))"
  by pat_completeness auto
termination
  by (relation "measure length")
     (auto dest!: decode_uXXXX_length low_surrogate_length)

declare scanstring.simps(2) [simp del]

text \<open>
  \<open>match_number\<close> is the decoder's number pattern
  \<^verbatim>\<open>(-?(?:0|[1-9][0-9]*))(\.[0-9]+)?([eE][-+]?[0-9]+)?\<close>: the result is the integer read, or
  \<open>None\<close> in its place when a fraction or an exponent makes the number a float.
\<close>

definition digits_val :: "pystr \<Rightarrow> nat" where
  "digits_val ds = foldl (\<lambda>acc d. acc * 10 + (d - 48)) 0 ds"

definition skip_frac :: "pystr \<Rightarrow> pystr option" where
  "skip_frac s =
     (case s of
        p # d # r \<Rightarrow> if p = 46 \<and> is_digit d then Some (dropWhile is_digit r) else None
      | _ \<Rightarrow> None)"

definition skip_exp :: "pystr \<Rightarrow> pystr option" where
  "skip_exp s =
     (case s of
        e # r \<Rightarrow>
          if e = 101 \<or> e = 69 then
            (case (case r of sg # t \<Rightarrow> if sg = 43 \<or> sg = MINUS then t else r | [] \<Rightarrow> r) of
               d # t \<Rightarrow> if is_digit d then Some (dropWhile is_digit t) else None
             | [] \<Rightarrow> None)
          else None
      | [] \<Rightarrow> None)"

definition match_number :: "pystr \<Rightarrow> (int option \<times> pystr) option" where
  "match_number s =
     (let neg = (case s of c # _ \<Rightarrow> c = MINUS | [] \<Rightarrow> False);
          s1 = (if neg then tl s else s)
      in case s1 of
           [] \<Rightarrow> None
         | d # r \<Rightarrow>
             if \<not> is_digit d then None
             else
               let ds = (if d = 48 then [d] else d # takeWhile is_digit r);
                   r1 = (if d = 48 then r else dropWhile is_digit r);
                   frac = skip_frac r1;
                   r2 = (case frac of Some t \<Rightarrow> t | None \<Rightarrow> r1);
                   ex = skip_exp r2;
                   r3 = (case ex of Some t \<Rightarrow> t | None \<Rightarrow> r2)
               in if frac = None \<and> ex = None
                  then Some (Some (if neg then - int (digits_val ds) else int (digits_val ds)), r3)
                  else Some (None, r3))"

text \<open>
  \<^verbatim>\<open>d[key] = value\<close> on a dict: an existing key keeps its place, a new one goes last.
  \<open>dict_of_pairs\<close> is \<^verbatim>\<open>dict(pairs)\<close>, which the decoder applies to the members of an
  object, so that of a repeated key the last value stays.
\<close>

fun dict_set :: "(pystr \<times> json) list \<Rightarrow> pystr \<Rightarrow> json \<Rightarrow> (pystr \<times> json) list" where
  "dict_set [] k v = [(k, v)]"
| "dict_set (p # ps) k v = (if fst p = k then (k, v) # ps else p # dict_set ps k v)"

definition dict_of_pairs :: "(pystr \<times> json) list \<Rightarrow> (pystr \<times> json) list" where
  "dict_of_pairs pairs = foldl (\<lambda>d kv. dict_set d (fst kv) (snd kv)) [] pairs"

text \<open>
  \<open>scan_once n s\<close> reads one value at the start of \<open>s\<close> and returns it with the text that
  follows; the flag says that a float (a number with a fraction or an exponent, \<^verbatim>\<open>NaN\<close>,
  \<^verbatim>\<open>Infinity\<close>) was read, in whose place the value holds \<open>JNull\<close>. \<open>parse_array\<close> and
  \<open>parse_object\<close> read the items after \<^verbatim>\<open>[\<close> and the members after \<^verbatim>\<open>{\<close>. Python's
  decoder recurses on the nesting of the document; here \<open>n\<close> bounds the calls, and
  \<open>json_loads\<close> starts with more than the length of the text, which no document uses up
  since every call but the first follows at least one character read.
\<close>

fun scan_once :: "nat \<Rightarrow> pystr \<Rightarrow> (json \<times> bool \<times> pystr) option"
  and parse_array :: "nat \<Rightarrow> pystr \<Rightarrow> (json list \<times> bool \<times> pystr) option"
  and parse_object :: "nat \<Rightarrow> pystr \<Rightarrow> ((pystr \<times> json) list \<times> bool \<times> pystr) option" where
  "scan_once 0 s = None"
| "scan_once (Suc n) s =
     (case s of
        [] \<Rightarrow> None
      | c # cs \<Rightarrow>
          if c = QUOTE then
            (case scanstring cs of None \<Rightarrow> None | Some (str, r) \<Rightarrow> Some (JStr str, False, r))
          else if c = LBRACE then
            (case skip_ws cs of
               [] \<Rightarrow> None
             | d # r \<Rightarrow>
                 if d = RBRACE then Some (JObj [], False, r)
                 else (case parse_object n (d # r) of
                         None \<Rightarrow> None
                       | Some (kvs, fl, r') \<Rightarrow> Some (JObj (dict_of_pairs kvs), fl, r')))
          else if c = LBRACKET then
            (case skip_ws cs of
               [] \<Rightarrow> None
             | d # r \<Rightarrow>
                 if d = RBRACKET then Some (JArr [], False, r)
                 else (case parse_array n (d # r) of
                         None \<Rightarrow> None
                       | Some (xs, fl, r') \<Rightarrow> Some (JArr xs, fl, r')))
          else if take 4 s = ascii ''null'' then Some (JNull, False, drop 4 s)
          else if take 4 s = ascii ''true'' then Some (JBool True, False, drop 4 s)
          else if take 5 s = ascii ''false'' then Some (JBool False, False, drop 5 s)
          else
            (case match_number s of
               Some (Some i, r) \<Rightarrow> Some (JInt i, False, r)
             | Some (None, r) \<Rightarrow> Some (JNull, True, r)
             | None \<Rightarrow>
                 if take 3 s = ascii ''NaN'' then Some (JNull, True, drop 3 s)
                 else if take 8 s = ascii ''Infinity'' then Some (JNull, True, drop 8 s)
                 else if take 9 s = ascii ''-Infinity'' then Some (JNull, True, drop 9 s)
                 else None))"
| "parse_array 0 s = None"
| "parse_array (Suc n) s =
     (case scan_once (Suc n) s of
        None \<Rightarrow> None
      | Some (v, fl, r) \<Rightarrow>
          (case skip_ws r of
             [] \<Rightarrow> None
           | d # r' \<Rightarrow>
               if d = RBRACKET then Some ([v], fl, r')
               else if d = COMMA then
                 (case parse_array n (skip_ws r') of
                    None \<Rightarrow> None
                  | Some (vs, fl', r'') \<Rightarrow> Some (v # vs, fl \<or> fl', r''))
               else None))"
| "parse_object 0 s = None"
| "parse_object (Suc n) s =
     (case s of
        [] \<Rightarrow> None
      | q # cs \<Rightarrow>
          if q \<noteq> QUOTE then None
          else
            (case scanstring cs of
               None \<Rightarrow> None
             | Some (key, r) \<Rightarrow>
                 (case skip_ws r of
                    [] \<Rightarrow> None
                  | c # r1 \<Rightarrow>
                      if c \<noteq> COLON then None
                      else
                        (case scan_once (Suc n) (skip_ws r1) of
                           None \<Rightarrow> None
                         | Some (v, fl, r2) \<Rightarrow>
                             (case skip_ws r2 of
                                [] \<Rightarrow> None
                              | d # r3 \<Rightarrow>
                                  if d = RBRACE then Some ([(key, v)], fl, r3)
                                  else if d = COMMA then
                                    (case parse_object n (skip_ws r3) of
                                       None \<Rightarrow> None
                                     | Some (kvs, fl', r4) \<Rightarrow>
                                         Some ((key, v) # kvs, fl \<or> fl', r4))
                                  else None)))))"

text \<open>
  \<^verbatim>\<open>json.loads\<close>: whitespace, one value, whitespace, the end of the text. A document
  that is well formed and holds a float is outside this embedding.
\<close>

definition json_loads :: "pystr \<Rightarrow> py_error + json" where
  "json_loads s =
     (case scan_once (Suc (length s)) (skip_ws s) of
        None \<Rightarrow> Inl JSONDecodeError
      | Some (v, fl, r) \<Rightarrow>
          if skip_ws r \<noteq> [] then Inl JSONDecodeError
          else if fl then Inl Unmodelled
          else Inr v)"

subsection \<open>The operations of Python the program applies to what it loaded\<close>

text \<open>Truth value, as \<^verbatim>\<open>if not tasks\<close> and \<^verbatim>\<open>if t.get("done")\<close> take it.\<close>

fun truthy :: "json \<Rightarrow> bool" where
  "truthy JNull = False"
| "truthy (JBool b) = b"
| "truthy (JInt i) = (i \<noteq> 0)"
| "truthy (JStr s) = (s \<noteq> [])"
| "truthy (JArr xs) = (xs \<noteq> [])"
| "truthy (JObj kvs) = (kvs \<noteq> [])"

text \<open>
  \<^verbatim>\<open>for t in tasks\<close>: a list gives its items, a dict its keys, a str its characters;
  anything else is not iterable.
\<close>

fun py_iter :: "json \<Rightarrow> py_error + json list" where
  "py_iter (JArr xs) = Inr xs"
| "py_iter (JObj kvs) = Inr (map (\<lambda>kv. JStr (fst kv)) kvs)"
| "py_iter (JStr s) = Inr (map (\<lambda>c. JStr [c]) s)"
| "py_iter _ = Inl TypeError"

text \<open>\<^verbatim>\<open>t.get(key, default)\<close>: only a dict has the method.\<close>

fun py_get :: "json \<Rightarrow> pystr \<Rightarrow> json \<Rightarrow> py_error + json" where
  "py_get (JObj kvs) key dflt = Inr (case map_of kvs key of Some v \<Rightarrow> v | None \<Rightarrow> dflt)"
| "py_get _ key dflt = Inl AttributeError"

text \<open>\<^verbatim>\<open>t[key] = value\<close>.\<close>

fun py_setitem :: "json \<Rightarrow> pystr \<Rightarrow> json \<Rightarrow> py_error + json" where
  "py_setitem (JObj kvs) key v = Inr (JObj (dict_set kvs key v))"
| "py_setitem _ key v = Inl TypeError"

text \<open>\<^verbatim>\<open>tasks.append(task)\<close>: only a list has the method.\<close>

fun py_append :: "json \<Rightarrow> json \<Rightarrow> py_error + json" where
  "py_append (JArr xs) x = Inr (JArr (xs @ [x]))"
| "py_append _ x = Inl AttributeError"

text \<open>A bool is an int in Python (\<^verbatim>\<open>True == 1\<close>); \<open>num_val\<close> is the number a value is.\<close>

fun num_val :: "json \<Rightarrow> int option" where
  "num_val (JInt i) = Some i"
| "num_val (JBool b) = Some (if b then 1 else 0)"
| "num_val _ = None"

text \<open>\<^verbatim>\<open>v == n\<close> for an int \<open>n\<close>: equality of values; nothing but a number equals one.\<close>

definition py_eq_int :: "json \<Rightarrow> int \<Rightarrow> bool" where
  "py_eq_int v n = (num_val v = Some n)"

fun str_gt :: "pystr \<Rightarrow> pystr \<Rightarrow> bool" where
  "str_gt [] t = False"
| "str_gt (x # xs) [] = True"
| "str_gt (x # xs) (y # ys) = (y < x \<or> (x = y \<and> str_gt xs ys))"

text \<open>\<^verbatim>\<open>a > b\<close>, which \<^verbatim>\<open>max\<close> asks of each item against the largest so far.\<close>

fun py_gt :: "json \<Rightarrow> json \<Rightarrow> py_error + bool" where
  "py_gt (JStr s) (JStr t) = Inr (str_gt s t)"
| "py_gt (JArr xs) (JArr ys) = Inl Unmodelled"
| "py_gt a b =
     (case (num_val a, num_val b) of
        (Some x, Some y) \<Rightarrow> Inr (y < x)
      | _ \<Rightarrow> Inl TypeError)"

text \<open>\<^verbatim>\<open>v + 1\<close>.\<close>

definition py_add1 :: "json \<Rightarrow> py_error + int" where
  "py_add1 v = (case num_val v of Some x \<Rightarrow> Inr (x + 1) | None \<Rightarrow> Inl TypeError)"

text \<open>\<^verbatim>\<open>str(v)\<close>, as an f-string formats a value.\<close>

fun py_str :: "json \<Rightarrow> py_error + pystr" where
  "py_str JNull = Inr (ascii ''None'')"
| "py_str (JBool b) = Inr (if b then ascii ''True'' else ascii ''False'')"
| "py_str (JInt i) = Inr (str_int i)"
| "py_str (JStr s) = Inr s"
| "py_str _ = Inl Unmodelled"

text \<open>
  \<^verbatim>\<open>datetime.utcnow().isoformat()\<close>: the clock's reading is a parameter of \<open>add_task\<close>;
  the microseconds are written only when they are not zero.
\<close>

record datetime =
  year :: nat
  month :: nat
  day :: nat
  hour :: nat
  minute :: nat
  second :: nat
  microsecond :: nat

definition zfill :: "nat \<Rightarrow> pystr \<Rightarrow> pystr" where
  "zfill w s = replicate (w - length s) 48 @ s"

definition isoformat :: "datetime \<Rightarrow> pystr" where
  "isoformat dt =
     zfill 4 (str_nat (year dt)) @ ascii ''-'' @ zfill 2 (str_nat (month dt)) @ ascii ''-''
     @ zfill 2 (str_nat (day dt)) @ ascii ''T'' @ zfill 2 (str_nat (hour dt)) @ ascii '':''
     @ zfill 2 (str_nat (minute dt)) @ ascii '':'' @ zfill 2 (str_nat (second dt))
     @ (if microsecond dt \<noteq> 0 then ascii ''.'' @ zfill 6 (str_nat (microsecond dt)) else [])"

subsection \<open>The file system\<close>

text \<open>
  What the program can see of a path: nothing there, a file with its bytes, or something
  that exists and cannot be opened for reading (a directory, a file without the
  permission). \<open>can_write\<close> says whether \<^verbatim>\<open>open(path, "w")\<close> succeeds. What is left of a
  file or of the output when an exception escapes is not described: an operation that
  raises returns the exception alone.
\<close>

datatype node = Missing | File bytes | Opaque

record filesystem =
  node_at :: "path \<Rightarrow> node"
  can_write :: "path \<Rightarrow> bool"

definition os_path_exists :: "filesystem \<Rightarrow> path \<Rightarrow> bool" where
  "os_path_exists fs p = (node_at fs p \<noteq> Missing)"

definition open_read :: "filesystem \<Rightarrow> path \<Rightarrow> py_error + bytes" where
  "open_read fs p = (case node_at fs p of File bs \<Rightarrow> Inr bs | _ \<Rightarrow> Inl OSError)"

definition write_file :: "filesystem \<Rightarrow> path \<Rightarrow> bytes \<Rightarrow> filesystem" where
  "write_file fs p bs =
     fs\<lparr>node_at := (node_at fs)(p := (case node_at fs p of Opaque \<Rightarrow> Opaque | _ \<Rightarrow> File bs))\<rparr>"

section \<open>The task store: \<^verbatim>\<open>src/todo.py\<close>\<close>

definition load_tasks :: "filesystem \<Rightarrow> path \<Rightarrow> py_error + json" where
  "load_tasks fs path =
     (if \<not> os_path_exists fs path then Inr (JArr [])
      else
        (case open_read fs path of
           Inl e \<Rightarrow> Inl e
         | Inr bs \<Rightarrow>
             (case utf8_decode bs of
                None \<Rightarrow> Inl UnicodeDecodeError
              | Some text \<Rightarrow>
                  (case json_loads text of
                     Inl JSONDecodeError \<Rightarrow> Inr (JArr [])
                   | Inl e \<Rightarrow> Inl e
                   | Inr v \<Rightarrow> Inr v))))"

definition save_tasks :: "json \<Rightarrow> filesystem \<Rightarrow> path \<Rightarrow> py_error + filesystem" where
  "save_tasks tasks fs path =
     (if \<not> can_write fs path then Inl OSError
      else
        (case utf8_encode (json_dumps tasks) of
           None \<Rightarrow> Inl UnicodeEncodeError
         | Some bs \<Rightarrow> Inr (write_file fs path bs)))"

text \<open>
  \<^verbatim>\<open>max((t.get("id", 0) for t in tasks), default=0)\<close>: the generator is consumed one task
  at a time, so a task that is no dict and an id that cannot be compared raise in the
  order of the collection.
\<close>

fun max_loop :: "json \<Rightarrow> json list \<Rightarrow> py_error + json" where
  "max_loop m [] = Inr m"
| "max_loop m (t # ts) =
     (case py_get t (ascii ''id'') (JInt 0) of
        Inl e \<Rightarrow> Inl e
      | Inr v \<Rightarrow>
          (case py_gt v m of
             Inl e \<Rightarrow> Inl e
           | Inr b \<Rightarrow> max_loop (if b then v else m) ts))"

definition max_id :: "json list \<Rightarrow> py_error + json" where
  "max_id ts =
     (case ts of
        [] \<Rightarrow> Inr (JInt 0)
      | t # ts' \<Rightarrow>
          (case py_get t (ascii ''id'') (JInt 0) of
             Inl e \<Rightarrow> Inl e
           | Inr v \<Rightarrow> max_loop v ts'))"

definition add_task ::
  "datetime \<Rightarrow> pystr \<Rightarrow> pystr \<Rightarrow> filesystem \<Rightarrow> path \<Rightarrow> py_error + (filesystem \<times> pystr list)" where
  "add_task now title desc fs path =
     (case load_tasks fs path of
        Inl e \<Rightarrow> Inl e
      | Inr tasks \<Rightarrow>
          (case py_iter tasks of
             Inl e \<Rightarrow> Inl e
           | Inr ts \<Rightarrow>
               (case max_id ts of
                  Inl e \<Rightarrow> Inl e
                | Inr m \<Rightarrow>
                    (case py_add1 m of
                       Inl e \<Rightarrow> Inl e
                     | Inr new_id \<Rightarrow>
                         (let task = JObj
                                [(ascii ''id'', JInt new_id),
                                 (ascii ''title'', JStr title),
                                 (ascii ''description'', JStr desc),
                                 (ascii ''created_at'', JStr (isoformat now @ ascii ''Z'')),
                                 (ascii ''done'', JBool False)]
                          in case py_append tasks task of
                               Inl e \<Rightarrow> Inl e
                             | Inr tasks' \<Rightarrow>
                                 (case save_tasks tasks' fs path of
                                    Inl e \<Rightarrow> Inl e
                                  | Inr fs' \<Rightarrow>
                                      Inr (fs', [ascii ''Added task '' @ str_int new_id
                                                 @ ascii '': '' @ title])))))))"

text \<open>One line of \<^verbatim>\<open>list_tasks\<close>; the mark of a done task is U+2713.\<close>

definition task_line :: "json \<Rightarrow> py_error + pystr" where
  "task_line t =
     (case py_get t (ascii ''done'') JNull of
        Inl e \<Rightarrow> Inl e
      | Inr d \<Rightarrow>
          (let status = (if truthy d then [10003] else ascii '' '') in
           case py_get t (ascii ''id'') JNull of
             Inl e \<Rightarrow> Inl e
           | Inr i \<Rightarrow>
               (case py_get t (ascii ''title'') JNull of
                  Inl e \<Rightarrow> Inl e
                | Inr ti \<Rightarrow>
                    (case py_get t (ascii ''description'') (JStr []) of
                       Inl e \<Rightarrow> Inl e
                     | Inr de \<Rightarrow>
                         (case (py_str i, py_str ti, py_str de) of
                            (Inr si, Inr sti, Inr sde) \<Rightarrow>
                              Inr (ascii ''['' @ status @ ascii ''] '' @ si @ ascii '': '' @ sti
                                   @ ascii '' - '' @ sde)
                          | _ \<Rightarrow> Inl Unmodelled)))))"

fun task_lines :: "json list \<Rightarrow> py_error + pystr list" where
  "task_lines [] = Inr []"
| "task_lines (t # ts) =
     (case task_line t of
        Inl e \<Rightarrow> Inl e
      | Inr l \<Rightarrow> (case task_lines ts of Inl e \<Rightarrow> Inl e | Inr ls \<Rightarrow> Inr (l # ls)))"

definition list_tasks :: "filesystem \<Rightarrow> path \<Rightarrow> py_error + (filesystem \<times> pystr list)" where
  "list_tasks fs path =
     (case load_tasks fs path of
        Inl e \<Rightarrow> Inl e
      | Inr tasks \<Rightarrow>
          if \<not> truthy tasks then Inr (fs, [ascii ''No tasks found.''])
          else
            (case py_iter tasks of
               Inl e \<Rightarrow> Inl e
             | Inr ts \<Rightarrow>
                 (case task_lines ts of Inl e \<Rightarrow> Inl e | Inr ls \<Rightarrow> Inr (fs, ls))))"

text \<open>
  The loop of \<^verbatim>\<open>complete_task\<close>: \<open>None\<close> when it runs to its end, otherwise the items with
  the first task whose id equals \<open>task_id\<close> updated in its place (\<^verbatim>\<open>t\<close> is the dict inside
  the list, so \<^verbatim>\<open>t["done"] = True\<close> changes the list that is saved).
\<close>

fun complete_loop :: "int \<Rightarrow> json list \<Rightarrow> py_error + json list option" where
  "complete_loop task_id [] = Inr None"
| "complete_loop task_id (t # ts) =
     (case py_get t (ascii ''id'') JNull of
        Inl e \<Rightarrow> Inl e
      | Inr v \<Rightarrow>
          if py_eq_int v task_id then
            (case py_setitem t (ascii ''done'') (JBool True) of
               Inl e \<Rightarrow> Inl e
             | Inr t' \<Rightarrow> Inr (Some (t' # ts)))
          else
            (case complete_loop task_id ts of
               Inl e \<Rightarrow> Inl e
             | Inr None \<Rightarrow> Inr None
             | Inr (Some ts') \<Rightarrow> Inr (Some (t # ts'))))"

text \<open>
  Only the items of a list are dicts, so a task is found only when \<open>tasks\<close> is a list, and
  the collection saved is the list of the updated items.
\<close>

definition complete_task ::
  "int \<Rightarrow> filesystem \<Rightarrow> path \<Rightarrow> py_error + (filesystem \<times> pystr list)" where
  "complete_task task_id fs path =
     (case load_tasks fs path of
        Inl e \<Rightarrow> Inl e
      | Inr tasks \<Rightarrow>
          (case py_iter tasks of
             Inl e \<Rightarrow> Inl e
           | Inr ts \<Rightarrow>
               (case complete_loop task_id ts of
                  Inl e \<Rightarrow> Inl e
                | Inr (Some ts') \<Rightarrow>
                    (case save_tasks (JArr ts') fs path of
                       Inl e \<Rightarrow> Inl e
                     | Inr fs' \<Rightarrow>
                         Inr (fs', [ascii ''Marked task '' @ str_int task_id
                                    @ ascii '' complete.'']))
                | Inr None \<Rightarrow>
                    Inr (fs, [ascii ''No task found with id '' @ str_int task_id @ ascii ''.'']))))"

section \<open>Vocabulary of the properties\<close>

text \<open>
  A task is a dict. \<open>field t k\<close> is the value it holds under the key \<open>k\<close>, \<open>id_value t\<close>
  the integer its \<^verbatim>\<open>id\<close> is (none when the key is absent or holds no number), and
  \<open>set_done t\<close> the task with \<^verbatim>\<open>done\<close> set to \<^verbatim>\<open>True\<close>.
\<close>

definition field :: "json \<Rightarrow> pystr \<Rightarrow> json option" where
  "field t k = (case t of JObj kvs \<Rightarrow> map_of kvs k | _ \<Rightarrow> None)"

definition is_dict :: "json \<Rightarrow> bool" where
  "is_dict t = (case t of JObj _ \<Rightarrow> True | _ \<Rightarrow> False)"

definition id_value :: "json \<Rightarrow> int option" where
  "id_value t = (case field t (ascii ''id'') of Some v \<Rightarrow> num_val v | None \<Rightarrow> None)"

definition set_done :: "json \<Rightarrow> json" where
  "set_done t =
     (case t of JObj kvs \<Rightarrow> JObj (dict_set kvs (ascii ''done'') (JBool True)) | _ \<Rightarrow> t)"

text \<open>The collection with the first task of id \<open>n\<close> marked done, and no other change.\<close>

fun mark_first :: "int \<Rightarrow> json list \<Rightarrow> json list" where
  "mark_first n [] = []"
| "mark_first n (t # ts) =
     (if id_value t = Some n then set_done t # ts else t # mark_first n ts)"

text \<open>
  The ids of a collection, for \<open>add_task\<close>: \<open>int_id_or_none t\<close> says that \<open>t\<close> is a dict
  whose \<^verbatim>\<open>id\<close>, if it has one, is an int, \<open>has_int_id t\<close> that it has one; \<open>id_or_zero\<close> is
  that id, 0 in its absence; \<open>present_ids\<close> lists the ids that are there. \<open>next_id\<close> is the
  next id by the rule of the largest id plus one, and \<open>new_task\<close> the task \<open>add_task\<close>
  builds.
\<close>

definition has_int_id :: "json \<Rightarrow> bool" where
  "has_int_id t = (case field t (ascii ''id'') of Some (JInt i) \<Rightarrow> is_dict t | _ \<Rightarrow> False)"

definition int_id_or_none :: "json \<Rightarrow> bool" where
  "int_id_or_none t =
     (is_dict t
      \<and> (case field t (ascii ''id'') of None \<Rightarrow> True | Some (JInt i) \<Rightarrow> True | _ \<Rightarrow> False))"

definition id_or_zero :: "json \<Rightarrow> int" where
  "id_or_zero t = (case field t (ascii ''id'') of Some (JInt i) \<Rightarrow> i | _ \<Rightarrow> 0)"

fun present_ids :: "json list \<Rightarrow> int list" where
  "present_ids [] = []"
| "present_ids (t # ts) =
     (case field t (ascii ''id'') of
        Some (JInt i) \<Rightarrow> i # present_ids ts
      | _ \<Rightarrow> present_ids ts)"

definition next_id :: "json list \<Rightarrow> int" where
  "next_id ts = (if ts = [] then 0 else Max (set (map id_or_zero ts))) + 1"

definition new_task :: "int \<Rightarrow> pystr \<Rightarrow> pystr \<Rightarrow> datetime \<Rightarrow> json" where
  "new_task i title desc now =
     JObj [(ascii ''id'', JInt i),
           (ascii ''title'', JStr title),
           (ascii ''description'', JStr desc),
           (ascii ''created_at'', JStr (isoformat now @ ascii ''Z'')),
           (ascii ''done'', JBool False)]"

text \<open>A clock reading whose fields have the digits \<^verbatim>\<open>isoformat\<close> gives them.\<close>

definition valid_datetime :: "datetime \<Rightarrow> bool" where
  "valid_datetime dt =
     (year dt < 10000 \<and> month dt < 100 \<and> day dt < 100 \<and> hour dt < 100 \<and> minute dt < 100
      \<and> second dt < 100 \<and> microsecond dt < 1000000)"

subsection \<open>A stored collection to run the operations on\<close>

definition example_file :: bytes where
  \<open>example_file = ''[{"id": 1, "title": "Buy groceries", "description": "Milk", "created_at": "2026-02-09T10:00:00Z", "done": false}, {"id": 300, "title": "Large ID task", "description": "", "created_at": "2026-02-09T11:00:00Z", "done": false}]''\<close>

definition example_tasks :: "json list" where
  "example_tasks =
     [JObj [(ascii ''id'', JInt 1), (ascii ''title'', JStr (ascii ''Buy groceries'')),
            (ascii ''description'', JStr (ascii ''Milk'')),
            (ascii ''created_at'', JStr (ascii ''2026-02-09T10:00:00Z'')),
            (ascii ''done'', JBool False)],
      JObj [(ascii ''id'', JInt 300), (ascii ''title'', JStr (ascii ''Large ID task'')),
            (ascii ''description'', JStr []),
            (ascii ''created_at'', JStr (ascii ''2026-02-09T11:00:00Z'')),
            (ascii ''done'', JBool False)]]"

definition example_fs :: filesystem where
  "example_fs =
     \<lparr>node_at = (\<lambda>p. if p = ''tasks.json'' then File example_file else Missing),
      can_write = (\<lambda>p. True)\<rparr>"

definition example_now :: datetime where
  "example_now =
     \<lparr>year = 2026, month = 2, day = 9, hour = 12, minute = 30, second = 5, microsecond = 0\<rparr>"

definition negative_id_file :: bytes where
  \<open>negative_id_file = ''[{"id": -5}, {"title": "x"}]''\<close>

definition negative_id_tasks :: "json list" where
  "negative_id_tasks = [JObj [(ascii ''id'', JInt (- 5))], JObj [(ascii ''title'', JStr (ascii ''x''))]]"

definition negative_id_fs :: filesystem where
  "negative_id_fs =
     \<lparr>node_at = (\<lambda>p. if p = ''tasks.json'' then File negative_id_file else Missing),
      can_write = (\<lambda>p. True)\<rparr>"

definition delimited :: "pystr \<Rightarrow> bool" where
  "delimited r = (case r of [] \<Rightarrow> True | c # _ \<Rightarrow> c = COMMA \<or> c = 10)"

definition value_start :: "nat \<Rightarrow> bool" where
  "value_start c = (c = QUOTE \<or> c = LBRACE \<or> c = LBRACKET \<or> c = 110 \<or> c = 116 \<or> c = 102
                    \<or> c = MINUS \<or> is_digit c)"

definition scalar :: "nat \<Rightarrow> bool" where
  "scalar c = (c < 0xD800 \<or> (0xDFFF < c \<and> c < 0x110000))"

fun text_ok :: "json \<Rightarrow> bool" and text_ok_items :: "json list \<Rightarrow> bool"
  and text_ok_members :: "(pystr \<times> json) list \<Rightarrow> bool" where
  "text_ok (JStr s) = list_all scalar s"
| "text_ok (JArr xs) = text_ok_items xs"
| "text_ok (JObj kvs) = text_ok_members kvs"
| "text_ok _ = True"
| "text_ok_items [] = True"
| "text_ok_items (x # xs) = (text_ok x \<and> text_ok_items xs)"
| "text_ok_members [] = True"
| "text_ok_members (kv # kvs) = (list_all scalar (fst kv) \<and> text_ok (snd kv) \<and> text_ok_members kvs)"

definition unicode_tasks :: json where
  "unicode_tasks =
     JArr [JObj [(ascii ''id'', JInt 1), (ascii ''title'', JStr [66, 117, 121, 32, 99, 97, 102, 233, 32, 9749]),
                 (ascii ''description'', JStr [68, 101, 115, 99, 114, 105, 112, 99, 105, 243, 110, 32, 128512]),
                 (ascii ''done'', JBool False)]]"

definition empty_fs :: filesystem where
  "empty_fs = \<lparr>node_at = (\<lambda>p. Missing), can_write = (\<lambda>p. True)\<rparr>"

section \<open>Properties of \<^verbatim>\<open>complete_task\<close>\<close>

lemma map_of_dict_set: "map_of (dict_set kvs k v) = (map_of kvs)(k \<mapsto> v)"
  by (induction kvs) auto

lemma py_get_dict:
  "is_dict t \<Longrightarrow> py_get t k d = Inr (case field t k of Some v \<Rightarrow> v | None \<Rightarrow> d)"
  by (cases t) (simp_all add: is_dict_def field_def)

lemma py_eq_int_id:
  "py_eq_int (case field t (ascii ''id'') of Some v \<Rightarrow> v | None \<Rightarrow> JNull) n
     = (id_value t = Some n)"
  by (simp add: py_eq_int_def id_value_def split: option.splits)

lemma py_setitem_dict:
  "is_dict t \<Longrightarrow> py_setitem t (ascii ''done'') (JBool True) = Inr (set_done t)"
  by (cases t) (simp_all add: is_dict_def set_done_def)

lemma complete_loop_dicts:
  "list_all is_dict ts \<Longrightarrow>
   complete_loop n ts =
     Inr (if list_ex (\<lambda>t. id_value t = Some n) ts then Some (mark_first n ts) else None)"
  by (induction ts) (simp_all add: py_get_dict py_eq_int_id py_setitem_dict)

lemma complete_task_dicts:
  assumes "load_tasks fs path = Inr (JArr ts)" and "list_all is_dict ts"
  shows "complete_task n fs path =
     (if list_ex (\<lambda>t. id_value t = Some n) ts
      then (case save_tasks (JArr (mark_first n ts)) fs path of
              Inl e \<Rightarrow> Inl e
            | Inr fs' \<Rightarrow> Inr (fs', [ascii ''Marked task '' @ str_int n @ ascii '' complete.'']))
      else Inr (fs, [ascii ''No task found with id '' @ str_int n @ ascii ''.'']))"
  using assms by (simp add: complete_task_def complete_loop_dicts)

lemma load_example: "load_tasks example_fs ''tasks.json'' = Inr (JArr example_tasks)"
  by code_simp

lemma example_dicts: "list_all is_dict example_tasks"
  by code_simp

text \<open>
  C4. When no task of the stored collection has the requested id, \<open>complete_task\<close>
  reports \<^verbatim>\<open>No task found with id N.\<close> and returns the file system it was given: nothing
  is saved, so the stored collection stays as it was, byte for byte.
\<close>

theorem complete_task_not_found:
  assumes "load_tasks fs path = Inr (JArr ts)"
      and "list_all is_dict ts"
      and "\<not> list_ex (\<lambda>t. id_value t = Some n) ts"
  shows "complete_task n fs path =
           Inr (fs, [ascii ''No task found with id '' @ str_int n @ ascii ''.''])"
  using assms by (simp add: complete_task_dicts)

theorem complete_task_not_found_witness:
  "complete_task 999 example_fs ''tasks.json''
     = Inr (example_fs, [ascii ''No task found with id 999.''])"
proof -
  have absent: "\<not> list_ex (\<lambda>t. id_value t = Some 999) example_tasks"
    by code_simp
  have digits: "str_int 999 = ascii ''999''"
    by code_simp
  show ?thesis
    using complete_task_not_found [OF load_example example_dicts absent] digits
    by (simp add: ascii_def)
qed

lemma field_set_done_id: "field (set_done t) (ascii ''id'') = field t (ascii ''id'')"
  by (cases t) (simp_all add: set_done_def field_def map_of_dict_set ascii_def)

lemma id_value_set_done: "id_value (set_done t) = id_value t"
  by (simp add: id_value_def field_set_done_id)

lemma field_set_done_done:
  "is_dict t \<Longrightarrow> field (set_done t) (ascii ''done'') = Some (JBool True)"
  by (cases t) (simp_all add: set_done_def field_def map_of_dict_set is_dict_def)

lemma id_value_is_dict: "id_value t = Some n \<Longrightarrow> is_dict t"
  by (cases t) (simp_all add: id_value_def field_def is_dict_def)

lemma mark_first_marks:
  "list_ex (\<lambda>t. id_value t = Some n) ts \<Longrightarrow>
   list_ex (\<lambda>t. id_value t = Some n \<and> field t (ascii ''done'') = Some (JBool True))
     (mark_first n ts)"
  by (induction ts) (auto simp: id_value_set_done field_set_done_done id_value_is_dict)

lemma id_value_int: "field t (ascii ''id'') = Some (JInt m) \<Longrightarrow> (id_value t = Some n) = (m = n)"
  by (simp add: id_value_def)

text \<open>
  C1. \<open>complete_task\<close> finds a task exactly when some task's id is the requested
  integer, compared by value: the statement holds for every integer \<open>n\<close>, with no range
  in which it would differ. When a task is found, the collection handed to \<open>save_tasks\<close>
  holds a task of that id with \<^verbatim>\<open>done\<close> true, and the call reports
  \<^verbatim>\<open>Marked task N complete.\<close> unless the save itself fails.
\<close>

theorem complete_task_by_value:
  assumes "load_tasks fs path = Inr (JArr ts)" and "list_all is_dict ts"
  shows "complete_task n fs path =
           (if list_ex (\<lambda>t. id_value t = Some n) ts
            then (case save_tasks (JArr (mark_first n ts)) fs path of
                    Inl e \<Rightarrow> Inl e
                  | Inr fs' \<Rightarrow>
                      Inr (fs', [ascii ''Marked task '' @ str_int n @ ascii '' complete.'']))
            else Inr (fs, [ascii ''No task found with id '' @ str_int n @ ascii ''.'']))
         \<and> (list_ex (\<lambda>t. id_value t = Some n) ts \<longrightarrow>
              list_ex (\<lambda>t. id_value t = Some n \<and> field t (ascii ''done'') = Some (JBool True))
                (mark_first n ts))
         \<and> (\<forall>t m. field t (ascii ''id'') = Some (JInt m) \<longrightarrow> (id_value t = Some n) = (m = n))"
  using assms complete_task_dicts [of fs path ts n] mark_first_marks [of n ts]
  by (simp add: id_value_int)

theorem complete_task_by_value_witness:
  "(case complete_task 300 example_fs ''tasks.json'' of
      Inl e \<Rightarrow> False
    | Inr (fs', out) \<Rightarrow>
        out = [ascii ''Marked task 300 complete.'']
        \<and> load_tasks fs' ''tasks.json'' = Inr (JArr (mark_first 300 example_tasks)))"
proof -
  have found: "list_ex (\<lambda>t. id_value t = Some 300) example_tasks"
    by code_simp
  have saved:
    "(case save_tasks (JArr (mark_first 300 example_tasks)) example_fs ''tasks.json'' of
        Inl e \<Rightarrow> False
      | Inr fs' \<Rightarrow> load_tasks fs' ''tasks.json'' = Inr (JArr (mark_first 300 example_tasks)))"
    by code_simp
  have digits: "str_int 300 = ascii ''300''"
    by code_simp
  show ?thesis
    using complete_task_by_value [OF load_example example_dicts, of 300, THEN conjunct1]
      found saved digits
    by (auto simp: ascii_def split: sum.splits)
qed

section \<open>Properties of \<^verbatim>\<open>add_task\<close>\<close>

lemma py_get_id_or_zero:
  "int_id_or_none t \<Longrightarrow> py_get t (ascii ''id'') (JInt 0) = Inr (JInt (id_or_zero t))"
  by (cases t)
     (auto simp: int_id_or_none_def is_dict_def field_def id_or_zero_def
           split: option.splits json.splits)

lemma max_loop_ints:
  "list_all int_id_or_none ts \<Longrightarrow>
   max_loop (JInt m) ts = Inr (JInt (fold max (map id_or_zero ts) m))"
proof (induction ts arbitrary: m)
  case Nil
  then show ?case by simp
next
  case (Cons t ts)
  then show ?case
    by (simp add: py_get_id_or_zero max_def)
qed

lemma max_id_ints:
  assumes "list_all int_id_or_none ts"
  shows "max_id ts = Inr (JInt (if ts = [] then 0 else Max (set (map id_or_zero ts))))"
proof (cases ts)
  case Nil
  then show ?thesis by (simp add: max_id_def)
next
  case (Cons t ts')
  have "fold max (map id_or_zero ts') (id_or_zero t)
          = Max (set (id_or_zero t # map id_or_zero ts'))"
    by (simp only: Max.set_eq_fold)
  with Cons assms show ?thesis
    by (simp add: max_id_def py_get_id_or_zero max_loop_ints)
qed

lemma add_task_ints:
  assumes "load_tasks fs path = Inr (JArr ts)" and "list_all int_id_or_none ts"
  shows "add_task now title desc fs path =
     (case save_tasks (JArr (ts @ [new_task (next_id ts) title desc now])) fs path of
        Inl e \<Rightarrow> Inl e
      | Inr fs' \<Rightarrow>
          Inr (fs', [ascii ''Added task '' @ str_int (next_id ts) @ ascii '': '' @ title]))"
  unfolding next_id_def new_task_def
  using assms by (simp add: add_task_def max_id_ints py_add1_def)

lemma length_str_nat: "0 < k \<Longrightarrow> n < 10 ^ k \<Longrightarrow> length (str_nat n) \<le> k"
proof (induction n arbitrary: k rule: str_nat.induct)
  case (1 n)
  show ?case
  proof (cases "n < 10")
    case True
    with 1 show ?thesis by (subst str_nat.simps) simp
  next
    case False
    obtain j where k: "k = Suc j" using 1(2) by (cases k) auto
    have "0 < j" using False 1(3) k by (cases j) auto
    moreover have "n div 10 < 10 ^ j"
      using 1(3) k by (simp add: less_mult_imp_div_less mult.commute)
    ultimately have "length (str_nat (n div 10)) \<le> j" using 1(1) False by blast
    with False k show ?thesis by (subst str_nat.simps) simp
  qed
qed

lemma length_zfill: "0 < w \<Longrightarrow> n < 10 ^ w \<Longrightarrow> length (zfill w (str_nat n)) = w"
  using length_str_nat [of w n] by (simp add: zfill_def)

lemma isoformat_shape:
  assumes "valid_datetime dt"
  shows "length (isoformat dt) = (if microsecond dt = 0 then 19 else 26)
         \<and> isoformat dt ! 4 = 45 \<and> isoformat dt ! 7 = 45 \<and> isoformat dt ! 10 = 84
         \<and> isoformat dt ! 13 = 58 \<and> isoformat dt ! 16 = 58"
proof -
  have l: "length (zfill 4 (str_nat (year dt))) = 4" "length (zfill 2 (str_nat (month dt))) = 2"
    "length (zfill 2 (str_nat (day dt))) = 2" "length (zfill 2 (str_nat (hour dt))) = 2"
    "length (zfill 2 (str_nat (minute dt))) = 2" "length (zfill 2 (str_nat (second dt))) = 2"
    "length (zfill 6 (str_nat (microsecond dt))) = 6"
    using assms by (simp_all add: valid_datetime_def length_zfill)
  show ?thesis
    by (simp add: isoformat_def l nth_append ascii_def)
qed

lemma new_task_fields:
  "field (new_task i title desc now) (ascii ''id'') = Some (JInt i)"
  "field (new_task i title desc now) (ascii ''title'') = Some (JStr title)"
  "field (new_task i title desc now) (ascii ''description'') = Some (JStr desc)"
  "field (new_task i title desc now) (ascii ''created_at'') = Some (JStr (isoformat now @ ascii ''Z''))"
  "field (new_task i title desc now) (ascii ''done'') = Some (JBool False)"
  by (simp_all add: new_task_def field_def ascii_def)

text \<open>
  C8. On a loaded collection whose ids are ints, \<open>add_task\<close> builds the task with the next
  id by the rule of the largest id plus one, the given title and description,
  \<^verbatim>\<open>done\<close> false and \<^verbatim>\<open>created_at\<close> the clock's reading in ISO format followed by
  \<^verbatim>\<open>Z\<close>; it hands \<open>save_tasks\<close> the collection with this task after all the earlier ones,
  unchanged and in their order, and reports \<^verbatim>\<open>Added task ID: TITLE\<close>. A failure of the
  save is the only failure. For a clock reading in range the timestamp has the layout
  \<^verbatim>\<open>YYYY-MM-DDTHH:MM:SS\<close>, with six digits of microseconds when they are not zero.
\<close>

theorem add_task_appends:
  assumes "load_tasks fs path = Inr (JArr ts)" and "list_all int_id_or_none ts"
  shows "add_task now title desc fs path =
           (case save_tasks (JArr (ts @ [new_task (next_id ts) title desc now])) fs path of
              Inl e \<Rightarrow> Inl e
            | Inr fs' \<Rightarrow>
                Inr (fs', [ascii ''Added task '' @ str_int (next_id ts) @ ascii '': '' @ title]))
         \<and> field (new_task (next_id ts) title desc now) (ascii ''id'') = Some (JInt (next_id ts))
         \<and> field (new_task (next_id ts) title desc now) (ascii ''title'') = Some (JStr title)
         \<and> field (new_task (next_id ts) title desc now) (ascii ''description'') = Some (JStr desc)
         \<and> field (new_task (next_id ts) title desc now) (ascii ''done'') = Some (JBool False)
         \<and> field (new_task (next_id ts) title desc now) (ascii ''created_at'')
             = Some (JStr (isoformat now @ ascii ''Z''))
         \<and> last (isoformat now @ ascii ''Z'') = 90
         \<and> (valid_datetime now \<longrightarrow>
              length (isoformat now) = (if microsecond now = 0 then 19 else 26)
              \<and> isoformat now ! 4 = 45 \<and> isoformat now ! 7 = 45 \<and> isoformat now ! 10 = 84
              \<and> isoformat now ! 13 = 58 \<and> isoformat now ! 16 = 58)"
proof -
  have a: "add_task now title desc fs path =
           (case save_tasks (JArr (ts @ [new_task (next_id ts) title desc now])) fs path of
              Inl e \<Rightarrow> Inl e
            | Inr fs' \<Rightarrow>
                Inr (fs', [ascii ''Added task '' @ str_int (next_id ts) @ ascii '': '' @ title]))"
    by (rule add_task_ints [OF assms])
  have z: "last (isoformat now @ ascii ''Z'') = 90"
    by (simp add: ascii_def)
  have sh: "valid_datetime now \<longrightarrow>
              length (isoformat now) = (if microsecond now = 0 then 19 else 26)
              \<and> isoformat now ! 4 = 45 \<and> isoformat now ! 7 = 45 \<and> isoformat now ! 10 = 84
              \<and> isoformat now ! 13 = 58 \<and> isoformat now ! 16 = 58"
    using isoformat_shape [of now] by blast
  show ?thesis
    by (intro conjI) (rule a new_task_fields z sh)+
qed

lemma example_ids: "list_all int_id_or_none example_tasks"
  by code_simp

theorem add_task_appends_witness:
  "(case add_task example_now (ascii ''Write tests'') [] example_fs ''tasks.json'' of
      Inl e \<Rightarrow> False
    | Inr (fs', out) \<Rightarrow>
        out = [ascii ''Added task 301: Write tests'']
        \<and> load_tasks fs' ''tasks.json''
            = Inr (JArr (example_tasks @
                [JObj [(ascii ''id'', JInt 301), (ascii ''title'', JStr (ascii ''Write tests'')),
                       (ascii ''description'', JStr []),
                       (ascii ''created_at'', JStr (ascii ''2026-02-09T12:30:05Z'')),
                       (ascii ''done'', JBool False)]])))
   \<and> valid_datetime example_now"
proof -
  let ?new = "new_task 301 (ascii ''Write tests'') [] example_now"
  let ?sv = "save_tasks (JArr (example_tasks @ [?new])) example_fs ''tasks.json''"
  have ids: "map id_or_zero example_tasks = [1, 300]"
    by (simp add: example_tasks_def id_or_zero_def field_def ascii_def)
  have nxt: "next_id example_tasks = 301"
    by (simp add: next_id_def ids) (simp add: example_tasks_def)
  have saved:
    "(case ?sv of
        Inl e \<Rightarrow> False
      | Inr fs' \<Rightarrow>
          load_tasks fs' ''tasks.json''
            = Inr (JArr (example_tasks @
                [JObj [(ascii ''id'', JInt 301), (ascii ''title'', JStr (ascii ''Write tests'')),
                       (ascii ''description'', JStr []),
                       (ascii ''created_at'', JStr (ascii ''2026-02-09T12:30:05Z'')),
                       (ascii ''done'', JBool False)]])))"
    by code_simp
  have digits: "str_int 301 = ascii ''301''"
    by code_simp
  have clock: "valid_datetime example_now"
    by (simp add: valid_datetime_def example_now_def)
  have eq: "add_task example_now (ascii ''Write tests'') [] example_fs ''tasks.json'' =
      (case ?sv of
         Inl e \<Rightarrow> Inl e
       | Inr fs' \<Rightarrow>
           Inr (fs', [ascii ''Added task '' @ str_int 301 @ ascii '': '' @ ascii ''Write tests'']))"
    using add_task_appends [OF load_example example_ids, of example_now "ascii ''Write tests''" "[]",
        THEN conjunct1]
    unfolding nxt .
  have msg: "ascii ''Added task '' @ str_int 301 @ ascii '': '' @ ascii ''Write tests''
               = ascii ''Added task 301: Write tests''"
    unfolding digits by (simp add: ascii_def)
  obtain fs' where sv: "?sv = Inr fs'"
    and ld: "load_tasks fs' ''tasks.json''
            = Inr (JArr (example_tasks @
                [JObj [(ascii ''id'', JInt 301), (ascii ''title'', JStr (ascii ''Write tests'')),
                       (ascii ''description'', JStr []),
                       (ascii ''created_at'', JStr (ascii ''2026-02-09T12:30:05Z'')),
                       (ascii ''done'', JBool False)]]))"
    using saved by (cases ?sv) simp_all
  show ?thesis
    unfolding eq sv msg using ld clock by simp
qed

lemma set_id_or_zero:
  "list_all int_id_or_none ts \<Longrightarrow>
   set (map id_or_zero ts)
     = set (present_ids ts) \<union> (if list_all has_int_id ts then {} else {0})"
proof (induction ts)
  case Nil
  then show ?case by simp
next
  case (Cons t ts)
  then show ?case
    by (auto simp: int_id_or_none_def has_int_id_def id_or_zero_def
             split: option.splits json.splits if_splits)
qed

lemma next_id_missing:
  assumes "list_all int_id_or_none ts" and "\<not> list_all has_int_id ts"
  shows "next_id ts = Max (set (0 # present_ids ts)) + 1"
proof -
  have "ts \<noteq> []" using assms(2) by auto
  moreover have "set (map id_or_zero ts) = set (0 # present_ids ts)"
    using set_id_or_zero [OF assms(1)] assms(2) by auto
  ultimately show ?thesis by (simp add: next_id_def)
qed

lemma Max_insert_zero:
  fixes xs :: "int list"
  assumes "list_all (\<lambda>i. 0 \<le> i) xs"
  shows "Max (set (0 # xs)) = (if xs = [] then 0 else Max (set xs))"
proof (cases xs)
  case Nil
  then show ?thesis by simp
next
  case (Cons x xs')
  have "0 \<le> Max (set xs)"
    using assms Cons by (simp add: Max_ge_iff list_all_iff) 
  then show ?thesis using Cons by (simp add: max_def)
qed

text \<open>
  C10, as amended. \<open>add_task\<close> does not fail on records that lack an \<^verbatim>\<open>id\<close>: it takes
  their id as 0, so that the id it assigns is the largest of 0 and the ids that are
  present, plus one. That is the largest id present (or 0 when there is none) plus one
  whenever no id present is negative.
\<close>

theorem add_task_missing_id:
  assumes "load_tasks fs path = Inr (JArr ts)"
      and "list_all int_id_or_none ts"
      and "\<not> list_all has_int_id ts"
  shows "add_task now title desc fs path =
           (case save_tasks (JArr (ts @ [new_task (next_id ts) title desc now])) fs path of
              Inl e \<Rightarrow> Inl e
            | Inr fs' \<Rightarrow>
                Inr (fs', [ascii ''Added task '' @ str_int (next_id ts) @ ascii '': '' @ title]))
         \<and> next_id ts = Max (set (0 # present_ids ts)) + 1
         \<and> (list_all (\<lambda>i. 0 \<le> i) (present_ids ts) \<longrightarrow>
              next_id ts = (if present_ids ts = [] then 0 else Max (set (present_ids ts))) + 1)"
proof -
  have a: "add_task now title desc fs path =
           (case save_tasks (JArr (ts @ [new_task (next_id ts) title desc now])) fs path of
              Inl e \<Rightarrow> Inl e
            | Inr fs' \<Rightarrow>
                Inr (fs', [ascii ''Added task '' @ str_int (next_id ts) @ ascii '': '' @ title]))"
    by (rule add_task_ints [OF assms(1,2)])
  have b: "next_id ts = Max (set (0 # present_ids ts)) + 1"
    by (rule next_id_missing [OF assms(2,3)])
  have c: "list_all (\<lambda>i. 0 \<le> i) (present_ids ts) \<longrightarrow>
              next_id ts = (if present_ids ts = [] then 0 else Max (set (present_ids ts))) + 1"
    using b Max_insert_zero [of "present_ids ts"] by simp
  show ?thesis
    by (intro conjI) (rule a b c)+
qed

lemma load_negative: "load_tasks negative_id_fs ''tasks.json'' = Inr (JArr negative_id_tasks)"
  by code_simp

lemma negative_ids: "list_all int_id_or_none negative_id_tasks"
  by code_simp

lemma negative_missing: "\<not> list_all has_int_id negative_id_tasks"
  by code_simp

lemma negative_present: "present_ids negative_id_tasks = [- 5]"
  by (simp add: negative_id_tasks_def field_def ascii_def)

theorem add_task_missing_id_witness:
  "next_id negative_id_tasks = 1
   \<and> (case add_task example_now (ascii ''x'') [] negative_id_fs ''tasks.json'' of
        Inl e \<Rightarrow> False
      | Inr (fs', out) \<Rightarrow> out = [ascii ''Added task 1: x''])"
proof -
  let ?sv = "save_tasks (JArr (negative_id_tasks @ [new_task 1 (ascii ''x'') [] example_now]))
               negative_id_fs ''tasks.json''"
  note inst = add_task_missing_id [OF load_negative negative_ids negative_missing,
      of example_now "ascii ''x''" "[]"]
  have nxt: "next_id negative_id_tasks = 1"
    using inst [THEN conjunct2, THEN conjunct1] by (simp add: negative_present)
  have saved: "(case ?sv of Inl e \<Rightarrow> False | Inr fs' \<Rightarrow> True)"
    by code_simp
  have digits: "str_int 1 = ascii ''1''"
    by code_simp
  obtain fs' where sv: "?sv = Inr fs'"
    using saved by (cases ?sv) simp_all
  have eq: "add_task example_now (ascii ''x'') [] negative_id_fs ''tasks.json'' =
      (case ?sv of
         Inl e \<Rightarrow> Inl e
       | Inr fs' \<Rightarrow> Inr (fs', [ascii ''Added task '' @ str_int 1 @ ascii '': '' @ ascii ''x'']))"
    using inst [THEN conjunct1] unfolding nxt .
  show ?thesis
    unfolding eq sv digits using nxt by (simp add: ascii_def)
qed

theorem add_task_missing_id_counterexample:
  "load_tasks negative_id_fs ''tasks.json'' = Inr (JArr negative_id_tasks)
   \<and> present_ids negative_id_tasks = [- 5]
   \<and> (if present_ids negative_id_tasks = [] then 0 else Max (set (present_ids negative_id_tasks))) + 1
       = - 4
   \<and> (case add_task example_now (ascii ''x'') [] negative_id_fs ''tasks.json'' of
        Inl e \<Rightarrow> False
      | Inr (fs', out) \<Rightarrow> out = [ascii ''Added task 1: x''])"
proof -
  have run: "(case add_task example_now (ascii ''x'') [] negative_id_fs ''tasks.json'' of
        Inl e \<Rightarrow> False
      | Inr (fs', out) \<Rightarrow> out = [ascii ''Added task 1: x''])"
    by code_simp
  show ?thesis
    using load_negative run by (simp add: negative_present)
qed

section \<open>Saving and loading: the round trip through JSON and UTF-8\<close>

lemma str_nat_digits: "list_all is_digit (str_nat n)"
proof (induction n rule: str_nat.induct)
  case (1 n)
  show ?case
  proof (cases "n < 10")
    case True
    then show ?thesis by (subst str_nat.simps) (simp add: is_digit_def)
  next
    case False
    have "is_digit (48 + n mod 10)" by (simp add: is_digit_def)
    with False 1 show ?thesis by (subst str_nat.simps) simp
  qed
qed

lemma str_nat_Cons: "\<exists>d ds. str_nat n = d # ds \<and> is_digit d \<and> (d = 48 \<longrightarrow> n = 0 \<and> ds = [])"
proof (induction n rule: str_nat.induct)
  case (1 n)
  show ?case
  proof (cases "n < 10")
    case True
    then show ?thesis by (subst str_nat.simps) (simp add: is_digit_def)
  next
    case False
    with 1 obtain d ds where "str_nat (n div 10) = d # ds" "is_digit d" "d = 48 \<longrightarrow> n div 10 = 0 \<and> ds = []"
      by blast
    with False show ?thesis by (subst str_nat.simps) auto
  qed
qed

lemma digits_val_snoc: "digits_val (ds @ [d]) = digits_val ds * 10 + (d - 48)"
  by (simp add: digits_val_def)

lemma digits_val_str_nat: "digits_val (str_nat n) = n"
proof (induction n rule: str_nat.induct)
  case (1 n)
  show ?case
  proof (cases "n < 10")
    case True
    then show ?thesis by (subst str_nat.simps) (simp add: digits_val_def)
  next
    case False
    with 1 show ?thesis by (subst str_nat.simps) (simp add: digits_val_snoc)
  qed
qed

lemma takeWhile_digits:
  "list_all is_digit ds \<Longrightarrow> delimited r \<Longrightarrow> takeWhile is_digit (ds @ r) = ds"
  by (induction ds) (auto simp: delimited_def is_digit_def split: list.splits)

lemma dropWhile_digits:
  "list_all is_digit ds \<Longrightarrow> delimited r \<Longrightarrow> dropWhile is_digit (ds @ r) = r"
  by (induction ds) (auto simp: delimited_def is_digit_def split: list.splits)

lemma skip_frac_delimited: "delimited r \<Longrightarrow> skip_frac r = None"
  by (auto simp: delimited_def skip_frac_def split: list.splits)

lemma skip_exp_delimited: "delimited r \<Longrightarrow> skip_exp r = None"
  by (auto simp: delimited_def skip_exp_def split: list.splits)

lemma match_number_str_nat:
  assumes "delimited r"
  shows "match_number (str_nat n @ r) = Some (Some (int n), r)"
proof -
  obtain d ds where s: "str_nat n = d # ds" and d: "is_digit d" and z: "d = 48 \<longrightarrow> n = 0 \<and> ds = []"
    using str_nat_Cons by blast
  have all: "list_all is_digit ds" using str_nat_digits [of n] s by simp
  have v: "digits_val (d # ds) = n" using digits_val_str_nat [of n] s by simp
  have nm: "d \<noteq> MINUS" using d by (auto simp: is_digit_def)
  show ?thesis
    using assms d z all v nm
    by (auto simp: match_number_def s Let_def takeWhile_digits dropWhile_digits
          skip_frac_delimited skip_exp_delimited digits_val_def)
qed

lemma match_number_str_int:
  assumes "delimited r"
  shows "match_number (str_int i @ r) = Some (Some i, r)"
proof (cases "i < 0")
  case False
  then show ?thesis using match_number_str_nat [OF assms, of "nat i"] by (simp add: str_int_def)
next
  case True
  obtain d ds where s: "str_nat (nat (- i)) = d # ds" and d: "is_digit d"
      and z: "d = 48 \<longrightarrow> nat (- i) = 0 \<and> ds = []"
    using str_nat_Cons by blast
  have all: "list_all is_digit ds" using str_nat_digits [of "nat (- i)"] s by simp
  have v: "digits_val (d # ds) = nat (- i)" using digits_val_str_nat [of "nat (- i)"] s by simp
  show ?thesis
    using assms d z all v True
    by (auto simp: match_number_def str_int_def s Let_def takeWhile_digits dropWhile_digits
          skip_frac_delimited skip_exp_delimited digits_val_def)
qed

lemma hexval_hexdigit: "d < 16 \<Longrightarrow> hexval (hexdigit d) = Some d"
  by (auto simp: hexval_def hexdigit_def)

lemma scanstring_plain:
  "c \<noteq> QUOTE \<Longrightarrow> c \<noteq> BACKSLASH \<Longrightarrow> \<not> c < 32 \<Longrightarrow>
   scanstring (c # r) = cons_char c (scanstring r)"
  by (simp add: scanstring.simps(2))

lemma scanstring_short_escape:
  "backslash_char e = Some ch \<Longrightarrow> e \<noteq> 117 \<Longrightarrow>
   scanstring (BACKSLASH # e # r) = cons_char ch (scanstring r)"
  by (simp add: scanstring.simps(2))

lemma scanstring_control:
  assumes "c < 32"
  shows "scanstring (BACKSLASH # 117 # 48 # 48 # hexdigit (c div 16) # hexdigit (c mod 16) # r)
           = cons_char c (scanstring r)"
proof -
  have h0: "hexval 48 = Some 0" by (simp add: hexval_def)
  have h1: "hexval (hexdigit (c div 16)) = Some (c div 16)"
    using assms by (intro hexval_hexdigit) simp
  have h2: "hexval (hexdigit (c mod 16)) = Some (c mod 16)"
    by (intro hexval_hexdigit) simp
  have d: "decode_uXXXX (48 # 48 # hexdigit (c div 16) # hexdigit (c mod 16) # r) = Some (c, r)"
    by (simp add: h0 h1 h2)
  have l: "low_surrogate c r = None"
    using assms by (simp add: low_surrogate_def)
  show ?thesis
    by (simp add: scanstring.simps(2) [of BACKSLASH] d l del: decode_uXXXX.simps)
qed

lemma scanstring_encode_char:
  "scanstring (encode_char c @ r) = cons_char c (scanstring r)"
proof -
  consider "c = QUOTE" | "c = BACKSLASH" | "c = 8" | "c = 12" | "c = 10" | "c = 13" | "c = 9"
    | "c < 32" "c \<noteq> 8" "c \<noteq> 12" "c \<noteq> 10" "c \<noteq> 13" "c \<noteq> 9"
    | "\<not> c < 32" "c \<noteq> QUOTE" "c \<noteq> BACKSLASH"
    by linarith
  then show ?thesis
  proof cases
    case 8
    then show ?thesis
      using scanstring_control [of c r] by (simp add: encode_char_def)
  next
    case 9
    then show ?thesis
      using scanstring_plain [of c r] by (simp add: encode_char_def)
  qed (simp_all add: encode_char_def scanstring_short_escape backslash_char_def)
qed

lemma scanstring_encoded:
  "scanstring (concat (map encode_char s) @ QUOTE # r) = Some (s, r)"
  by (induction s) (simp_all add: scanstring.simps(2) scanstring_encode_char cons_char_def)

lemma dict_set_fresh: "k \<notin> fst ` set d \<Longrightarrow> dict_set d k v = d @ [(k, v)]"
  by (induction d) auto

lemma foldl_dict_set:
  "distinct (map fst d @ map fst kvs) \<Longrightarrow>
   foldl (\<lambda>d kv. dict_set d (fst kv) (snd kv)) d kvs = d @ kvs"
proof (induction kvs arbitrary: d)
  case Nil
  then show ?case by simp
next
  case (Cons kv kvs)
  have "dict_set d (fst kv) (snd kv) = d @ [kv]"
    using Cons.prems by (simp add: dict_set_fresh)
  moreover have "distinct (map fst (d @ [kv]) @ map fst kvs)"
    using Cons.prems by auto
  ultimately show ?case using Cons.IH [of "d @ [kv]"] by simp
qed

lemma dict_of_pairs_distinct: "distinct (map fst kvs) \<Longrightarrow> dict_of_pairs kvs = kvs"
  using foldl_dict_set [of "[]" kvs] by (simp add: dict_of_pairs_def)

lemma skip_ws_spaces: "skip_ws (replicate k 32 @ s) = skip_ws s"
  by (induction k) (simp_all add: skip_ws_def is_ws_def)

lemma skip_ws_newline_indent: "skip_ws (newline_indent l @ s) = skip_ws s"
  using skip_ws_spaces [of "2 * l" s] by (simp add: newline_indent_def skip_ws_def is_ws_def)

lemma skip_ws_nonws: "\<not> is_ws c \<Longrightarrow> skip_ws (c # s) = c # s"
  by (simp add: skip_ws_def)

lemma delimited_newline_indent: "delimited (newline_indent l @ s)"
  by (simp add: delimited_def newline_indent_def)

lemma delimited_comma: "delimited (COMMA # s)"
  by (simp add: delimited_def)

lemma value_start_not_ws: "value_start c \<Longrightarrow> \<not> is_ws c \<and> c \<noteq> RBRACKET \<and> c \<noteq> RBRACE"
  by (auto simp: value_start_def is_ws_def is_digit_def)

lemma str_int_start: "\<exists>c cs. str_int i = c # cs \<and> (c = MINUS \<or> is_digit c)"
  using str_nat_Cons [of "nat i"] by (auto simp: str_int_def)

lemma iterencode_start: "\<exists>c cs. iterencode l v = c # cs \<and> value_start c"
proof (cases v)
  case (JInt i)
  then show ?thesis using str_int_start [of i] by (auto simp: value_start_def)
qed (auto simp: value_start_def ascii_def encode_basestring_def)

lemma iterencode_list_start: "xs \<noteq> [] \<Longrightarrow> \<exists>c cs. iterencode_list l xs = c # cs \<and> value_start c"
proof (cases xs)
  case (Cons x xs')
  obtain c cs where "iterencode l x = c # cs" "value_start c"
    using iterencode_start by blast
  with Cons show ?thesis by simp
qed simp

lemma iterencode_dict_start: "kvs \<noteq> [] \<Longrightarrow> \<exists>cs. iterencode_dict l kvs = QUOTE # cs"
  by (cases kvs) (auto simp: encode_basestring_def)

lemma scan_null: "scan_once (Suc m) (ascii ''null'' @ r) = Some (JNull, False, r)"
  by (simp add: ascii_def)

lemma scan_true: "scan_once (Suc m) (ascii ''true'' @ r) = Some (JBool True, False, r)"
  by (simp add: ascii_def)

lemma scan_false: "scan_once (Suc m) (ascii ''false'' @ r) = Some (JBool False, False, r)"
  by (simp add: ascii_def)

lemma scan_str: "scan_once (Suc m) (encode_basestring s @ r) = Some (JStr s, False, r)"
  by (simp add: encode_basestring_def scanstring_encoded)

lemma scan_int:
  assumes "delimited r"
  shows "scan_once (Suc m) (str_int i @ r) = Some (JInt i, False, r)"
proof -
  obtain c cs where s: "str_int i = c # cs" and c: "c = MINUS \<or> is_digit c"
    using str_int_start by blast
  have m: "match_number (c # cs @ r) = Some (Some i, r)"
    using match_number_str_int [OF assms, of i] s by simp
  show ?thesis
    using c by (auto simp: s m ascii_def is_digit_def)
qed

lemma scan_empty_array: "scan_once (Suc m) (ascii ''[]'' @ r) = Some (JArr [], False, r)"
  by (simp add: ascii_def skip_ws_def is_ws_def)

lemma scan_empty_object: "scan_once (Suc m) (ascii ''{}'' @ r) = Some (JObj [], False, r)"
  by (simp add: ascii_def skip_ws_def is_ws_def)

lemma scan_array_step:
  assumes "xs \<noteq> []"
    and "parse_array m (iterencode_list (Suc l) xs @ newline_indent l @ RBRACKET # r)
           = Some (xs, False, r)"
  shows "scan_once (Suc m) (iterencode l (JArr xs) @ r) = Some (JArr xs, False, r)"
proof -
  obtain c cs where s: "iterencode_list (Suc l) xs = c # cs" and c: "value_start c"
    using iterencode_list_start [OF assms(1)] by blast
  have nw: "\<not> is_ws c" "c \<noteq> RBRACKET" using value_start_not_ws [OF c] by auto
  have sk: "skip_ws (newline_indent (Suc l) @ c # cs @ newline_indent l @ RBRACKET # r)
              = c # cs @ newline_indent l @ RBRACKET # r"
    by (simp only: skip_ws_newline_indent skip_ws_nonws [OF nw(1)])
  show ?thesis
    using assms nw by (simp add: s sk)
qed

lemma scan_object_step:
  assumes "kvs \<noteq> []" and "distinct (map fst kvs)"
    and "parse_object m (iterencode_dict (Suc l) kvs @ newline_indent l @ RBRACE # r)
           = Some (kvs, False, r)"
  shows "scan_once (Suc m) (iterencode l (JObj kvs) @ r) = Some (JObj kvs, False, r)"
proof -
  obtain cs where s: "iterencode_dict (Suc l) kvs = QUOTE # cs"
    using iterencode_dict_start [OF assms(1)] by blast
  have sk: "skip_ws (newline_indent (Suc l) @ QUOTE # cs @ newline_indent l @ RBRACE # r)
              = QUOTE # cs @ newline_indent l @ RBRACE # r"
    by (simp only: skip_ws_newline_indent) (simp add: skip_ws_def is_ws_def)
  show ?thesis
    using assms by (simp add: s sk dict_of_pairs_distinct)
qed

lemma parse_array_last:
  assumes "scan_once (Suc m) (iterencode l x @ newline_indent l' @ RBRACKET # r)
             = Some (x, False, newline_indent l' @ RBRACKET # r)"
  shows "parse_array (Suc m) (iterencode_list l [x] @ newline_indent l' @ RBRACKET # r)
           = Some ([x], False, r)"
proof -
  have sk: "skip_ws (newline_indent l' @ RBRACKET # r) = RBRACKET # r"
    by (simp only: skip_ws_newline_indent) (simp add: skip_ws_def is_ws_def)
  show ?thesis
    using assms by (simp add: sk del: scan_once.simps)
qed

lemma parse_array_more:
  assumes "xs \<noteq> []"
    and "scan_once (Suc m) (iterencode l x @ COMMA # newline_indent l @ iterencode_list l xs
                            @ newline_indent l' @ RBRACKET # r)
           = Some (x, False, COMMA # newline_indent l @ iterencode_list l xs
                            @ newline_indent l' @ RBRACKET # r)"
    and "parse_array m (iterencode_list l xs @ newline_indent l' @ RBRACKET # r)
           = Some (xs, False, r)"
  shows "parse_array (Suc m) (iterencode_list l (x # xs) @ newline_indent l' @ RBRACKET # r)
           = Some (x # xs, False, r)"
proof -
  obtain c cs where s: "iterencode_list l xs = c # cs" and c: "value_start c"
    using iterencode_list_start [OF assms(1)] by blast
  have nw: "\<not> is_ws c" using value_start_not_ws [OF c] by auto
  have sk1: "skip_ws (COMMA # t) = COMMA # t" for t
    by (simp add: skip_ws_def is_ws_def)
  have sk2: "skip_ws (newline_indent l @ c # t) = c # t" for t
    by (simp only: skip_ws_newline_indent skip_ws_nonws [OF nw])
  show ?thesis
    using assms by (simp add: s sk1 sk2 del: scan_once.simps)
qed

lemma skip_ws_iterencode: "skip_ws (iterencode l v @ t) = iterencode l v @ t"
proof -
  obtain c cs where s: "iterencode l v = c # cs" and c: "value_start c"
    using iterencode_start by blast
  have nw: "\<not> is_ws c" using value_start_not_ws [OF c] by auto
  show ?thesis unfolding s using nw by (simp add: skip_ws_def)
qed

lemma skip_ws_iterencode_dict:
  "kvs \<noteq> [] \<Longrightarrow> skip_ws (iterencode_dict l kvs @ t) = iterencode_dict l kvs @ t"
  using iterencode_dict_start [of kvs l] by (auto simp: skip_ws_def is_ws_def)

lemma skip_ws_space: "skip_ws (32 # t) = skip_ws t"
  by (simp add: skip_ws_def is_ws_def)

lemma skip_ws_colon: "skip_ws (COLON # t) = COLON # t"
  by (simp add: skip_ws_def is_ws_def)

lemma skip_ws_comma: "skip_ws (COMMA # t) = COMMA # t"
  by (simp add: skip_ws_def is_ws_def)

lemma skip_ws_rbrace: "skip_ws (newline_indent l @ RBRACE # t) = RBRACE # t"
  by (simp only: skip_ws_newline_indent) (simp add: skip_ws_def is_ws_def)

lemma parse_object_unfold:
  "parse_object (Suc m) (encode_basestring k @ ascii '': '' @ t) =
     (case scan_once (Suc m) (skip_ws t) of
        None \<Rightarrow> None
      | Some (v, fl, r2) \<Rightarrow>
          (case skip_ws r2 of
             [] \<Rightarrow> None
           | d # r3 \<Rightarrow>
               if d = RBRACE then Some ([(k, v)], fl, r3)
               else if d = COMMA then
                 (case parse_object m (skip_ws r3) of
                    None \<Rightarrow> None
                  | Some (kvs, fl', r4) \<Rightarrow> Some ((k, v) # kvs, fl \<or> fl', r4))
               else None))"
proof -
  have str: "scanstring (concat (map encode_char k) @ QUOTE # u) = Some (k, u)" for u
    by (rule scanstring_encoded)
  show ?thesis
    by (simp add: encode_basestring_def str ascii_def skip_ws_colon skip_ws_space
             del: scan_once.simps)
qed

lemma parse_object_last:
  assumes "scan_once (Suc m) (iterencode l (snd kv) @ newline_indent l' @ RBRACE # r)
             = Some (snd kv, False, newline_indent l' @ RBRACE # r)"
  shows "parse_object (Suc m) (iterencode_dict l [kv] @ newline_indent l' @ RBRACE # r)
           = Some ([kv], False, r)"
proof -
  have "parse_object (Suc m)
          (encode_basestring (fst kv) @ ascii '': '' @ iterencode l (snd kv)
             @ newline_indent l' @ RBRACE # r) = Some ([kv], False, r)"
    unfolding parse_object_unfold skip_ws_iterencode assms
    by (simp add: skip_ws_rbrace)
  then show ?thesis by simp
qed

lemma parse_object_more:
  assumes "kvs \<noteq> []"
    and "scan_once (Suc m) (iterencode l (snd kv) @ COMMA # newline_indent l
                            @ iterencode_dict l kvs @ newline_indent l' @ RBRACE # r)
           = Some (snd kv, False, COMMA # newline_indent l @ iterencode_dict l kvs
                            @ newline_indent l' @ RBRACE # r)"
    and "parse_object m (iterencode_dict l kvs @ newline_indent l' @ RBRACE # r)
           = Some (kvs, False, r)"
  shows "parse_object (Suc m) (iterencode_dict l (kv # kvs) @ newline_indent l' @ RBRACE # r)
           = Some (kv # kvs, False, r)"
proof -
  have sk: "skip_ws (newline_indent l @ iterencode_dict l kvs @ newline_indent l' @ RBRACE # r)
              = iterencode_dict l kvs @ newline_indent l' @ RBRACE # r"
    by (simp only: skip_ws_newline_indent skip_ws_iterencode_dict [OF assms(1)])
  have "parse_object (Suc m)
          (encode_basestring (fst kv) @ ascii '': '' @ iterencode l (snd kv)
             @ COMMA # newline_indent l @ iterencode_dict l kvs
             @ newline_indent l' @ RBRACE # r) = Some (kv # kvs, False, r)"
    unfolding parse_object_unfold skip_ws_iterencode assms(2)
    by (simp add: skip_ws_comma sk assms(3))
  then show ?thesis using assms(1) by simp
qed

lemma length_iterencode_pos: "0 < length (iterencode l v)"
  using iterencode_start [of l v] by auto

lemma scan_roundtrip_all:
  "(\<forall>n r. wf_json v \<longrightarrow> delimited r \<longrightarrow> length (iterencode l v) < n \<longrightarrow>
      scan_once n (iterencode l v @ r) = Some (v, False, r))"
  "(\<forall>n r l'. wf_items xs \<longrightarrow> xs \<noteq> [] \<longrightarrow> length (iterencode_list l xs) < n \<longrightarrow>
      parse_array n (iterencode_list l xs @ newline_indent l' @ RBRACKET # r)
        = Some (xs, False, r))"
  "(\<forall>n r l'. wf_members kvs \<longrightarrow> kvs \<noteq> [] \<longrightarrow> length (iterencode_dict l kvs) < n \<longrightarrow>
      parse_object n (iterencode_dict l kvs @ newline_indent l' @ RBRACE # r)
        = Some (kvs, False, r))"
proof (induction l v and l xs and l kvs rule: iterencode_iterencode_list_iterencode_dict.induct)
  case (1 level)
  show ?case
  proof (intro allI impI)
    fix n :: nat and r assume "length (iterencode level JNull) < n"
    then obtain m where "n = Suc m" by (cases n) auto
    then show "scan_once n (iterencode level JNull @ r) = Some (JNull, False, r)"
      using scan_null by simp
  qed
next
  case (2 level b)
  show ?case
  proof (intro allI impI)
    fix n :: nat and r assume "length (iterencode level (JBool b)) < n"
    then obtain m where "n = Suc m" by (cases n) auto
    then show "scan_once n (iterencode level (JBool b) @ r) = Some (JBool b, False, r)"
      using scan_true scan_false by (cases b) simp_all
  qed
next
  case (3 level i)
  show ?case
  proof (intro allI impI)
    fix n :: nat and r assume d: "delimited r" and "length (iterencode level (JInt i)) < n"
    then obtain m where "n = Suc m" by (cases n) auto
    then show "scan_once n (iterencode level (JInt i) @ r) = Some (JInt i, False, r)"
      using scan_int [OF d] by simp
  qed
next
  case (4 level s)
  show ?case
  proof (intro allI impI)
    fix n :: nat and r assume "length (iterencode level (JStr s)) < n"
    then obtain m where "n = Suc m" by (cases n) auto
    then show "scan_once n (iterencode level (JStr s) @ r) = Some (JStr s, False, r)"
      using scan_str by simp
  qed
next
  case (5 level xs)
  show ?case
  proof (intro allI impI)
    fix n :: nat and r
    assume wf: "wf_json (JArr xs)" and len: "length (iterencode level (JArr xs)) < n"
    obtain m where n: "n = Suc m" using len by (cases n) auto
    show "scan_once n (iterencode level (JArr xs) @ r) = Some (JArr xs, False, r)"
    proof (cases "xs = []")
      case True
      then show ?thesis using scan_empty_array [of m r] n by simp
    next
      case False
      have "length (iterencode_list (Suc level) xs) < m"
        using len n False by simp
      then have "parse_array m (iterencode_list (Suc level) xs @ newline_indent level @ RBRACKET # r)
            = Some (xs, False, r)"
        using 5 False wf by simp
      then show ?thesis
        unfolding n by (rule scan_array_step [OF False])
    qed
  qed
next
  case (6 level kvs)
  show ?case
  proof (intro allI impI)
    fix n :: nat and r
    assume wf: "wf_json (JObj kvs)" and len: "length (iterencode level (JObj kvs)) < n"
    obtain m where n: "n = Suc m" using len by (cases n) auto
    show "scan_once n (iterencode level (JObj kvs) @ r) = Some (JObj kvs, False, r)"
    proof (cases "kvs = []")
      case True
      then show ?thesis using scan_empty_object [of m r] n by simp
    next
      case False
      have dist: "distinct (map fst kvs)" using wf by simp
      have "length (iterencode_dict (Suc level) kvs) < m"
        using len n False by simp
      then have "parse_object m (iterencode_dict (Suc level) kvs @ newline_indent level @ RBRACE # r)
            = Some (kvs, False, r)"
        using 6 False wf by simp
      then show ?thesis
        unfolding n by (rule scan_object_step [OF False dist])
    qed
  qed
next
  case (7 level)
  show ?case by simp
next
  case (8 level x xs)
  show ?case
  proof (intro allI impI)
    fix n :: nat and r l'
    assume wf: "wf_items (x # xs)" and len: "length (iterencode_list level (x # xs)) < n"
    obtain m where n: "n = Suc m" using len by (cases n) auto
    have wx: "wf_json x" and wxs: "wf_items xs" using wf by simp_all
    have lx: "length (iterencode level x) < Suc m" using len n by simp
    show "parse_array n (iterencode_list level (x # xs) @ newline_indent l' @ RBRACKET # r)
            = Some (x # xs, False, r)"
    proof (cases "xs = []")
      case True
      have "scan_once (Suc m) (iterencode level x @ newline_indent l' @ RBRACKET # r)
             = Some (x, False, newline_indent l' @ RBRACKET # r)"
        using 8(1) wx lx delimited_newline_indent by blast
      then show ?thesis
        unfolding n True by (rule parse_array_last)
    next
      case False
      have a: "scan_once (Suc m) (iterencode level x @ COMMA # newline_indent level
                  @ iterencode_list level xs @ newline_indent l' @ RBRACKET # r)
           = Some (x, False, COMMA # newline_indent level @ iterencode_list level xs
                            @ newline_indent l' @ RBRACKET # r)"
        using 8(1) wx lx delimited_comma by blast
      have "length (iterencode_list level xs) < m"
        using len n False length_iterencode_pos [of level x] by simp
      then have b: "parse_array m (iterencode_list level xs @ newline_indent l' @ RBRACKET # r)
           = Some (xs, False, r)"
        using 8(2) False wxs by blast
      show ?thesis
        unfolding n by (rule parse_array_more [OF False a b])
    qed
  qed
next
  case (9 level)
  show ?case by simp
next
  case (10 level kv kvs)
  show ?case
  proof (intro allI impI)
    fix n :: nat and r l'
    assume wf: "wf_members (kv # kvs)" and len: "length (iterencode_dict level (kv # kvs)) < n"
    obtain m where n: "n = Suc m" using len by (cases n) auto
    have wx: "wf_json (snd kv)" and wxs: "wf_members kvs" using wf by simp_all
    have lx: "length (iterencode level (snd kv)) < Suc m" using len n by simp
    show "parse_object n (iterencode_dict level (kv # kvs) @ newline_indent l' @ RBRACE # r)
            = Some (kv # kvs, False, r)"
    proof (cases "kvs = []")
      case True
      have "scan_once (Suc m) (iterencode level (snd kv) @ newline_indent l' @ RBRACE # r)
             = Some (snd kv, False, newline_indent l' @ RBRACE # r)"
        using 10(1) wx lx delimited_newline_indent by blast
      then show ?thesis
        unfolding n True by (rule parse_object_last)
    next
      case False
      have a: "scan_once (Suc m) (iterencode level (snd kv) @ COMMA # newline_indent level
                  @ iterencode_dict level kvs @ newline_indent l' @ RBRACE # r)
           = Some (snd kv, False, COMMA # newline_indent level @ iterencode_dict level kvs
                            @ newline_indent l' @ RBRACE # r)"
        using 10(1) wx lx delimited_comma by blast
      have "length (iterencode_dict level kvs) < m"
        using len n False length_iterencode_pos [of level "snd kv"] by simp
      then have b: "parse_object m (iterencode_dict level kvs @ newline_indent l' @ RBRACE # r)
           = Some (kvs, False, r)"
        using 10(2) False wxs by blast
      show ?thesis
        unfolding n by (rule parse_object_more [OF False a b])
    qed
  qed
qed

lemma json_loads_dumps: "wf_json v \<Longrightarrow> json_loads (json_dumps v) = Inr v"
proof -
  assume wf: "wf_json v"
  obtain c cs where s: "iterencode 0 v = c # cs" and c: "value_start c"
    using iterencode_start by blast
  have nw: "\<not> is_ws c" using value_start_not_ws [OF c] by auto
  have sk: "skip_ws (iterencode 0 v) = iterencode 0 v"
    unfolding s by (rule skip_ws_nonws [OF nw])
  have "scan_once (Suc (length (iterencode 0 v))) (iterencode 0 v @ [])
          = Some (v, False, [])"
    using scan_roundtrip_all(1) [of v 0, rule_format, of "[]" "Suc (length (iterencode 0 v))"] wf
    by (simp add: delimited_def del: scan_once.simps)
  then have "scan_once (Suc (length (iterencode 0 v))) (iterencode 0 v) = Some (v, False, [])"
    by (simp del: scan_once.simps)
  moreover have "skip_ws [] = []"
    by (simp add: skip_ws_def)
  ultimately show ?thesis
    by (simp add: json_loads_def json_dumps_def sk del: scan_once.simps)
qed

lemma byte_of_char_of: "n < 256 \<Longrightarrow> (of_char (char_of n :: char) :: nat) = n"
  by simp

lemma cont_char:
  assumes "x < 64"
  shows "is_cont (char_of (0x80 + x :: nat))" and "cont_bits (char_of (0x80 + x :: nat)) = x"
proof -
  have "(of_char (char_of (0x80 + x :: nat) :: char) :: nat) = 0x80 + x"
    using assms by (intro byte_of_char_of) simp
  then show "is_cont (char_of (0x80 + x :: nat))" and "cont_bits (char_of (0x80 + x :: nat)) = x"
    using assms by (simp_all add: is_cont_def cont_bits_def)
qed

lemma utf8_decode_1:
  assumes "cp < 0x80"
  shows "utf8_decode (char_of cp # rest) = map_option (Cons cp) (utf8_decode rest)"
proof -
  have "(of_char (char_of cp :: char) :: nat) = cp"
    using assms by (intro byte_of_char_of) simp
  then show ?thesis using assms by (simp add: Let_def)
qed

lemma utf8_decode_2:
  assumes "0x80 \<le> cp" and "cp < 0x800"
  shows "utf8_decode (char_of (0xC0 + cp div 64) # char_of (0x80 + cp mod 64) # rest)
           = map_option (Cons cp) (utf8_decode rest)"
proof -
  define q where "q = cp div 64"
  define m where "m = cp mod 64"
  have v: "q * 64 + m = cp" by (simp add: q_def m_def)
  have m: "m < 64" by (simp add: m_def)
  have q: "q < 32" "2 \<le> q" using assms by (simp_all add: q_def)
  have b0: "(of_char (char_of (0xC0 + q) :: char) :: nat) = 0xC0 + q"
    using q by (intro byte_of_char_of) simp
  have c1: "is_cont (char_of (0x80 + m))" "cont_bits (char_of (0x80 + m)) = m"
    using m by (rule cont_char)+
  have "utf8_decode (char_of (0xC0 + q) # char_of (0x80 + m) # rest)
          = map_option (Cons (q * 64 + m)) (utf8_decode rest)"
    using q m by (simp add: b0 c1 Let_def)
  then show ?thesis
    unfolding v unfolding q_def m_def .
qed

lemma utf8_decode_3:
  assumes "0x800 \<le> cp" and "cp < 0x10000" and "\<not> (0xD800 \<le> cp \<and> cp \<le> 0xDFFF)"
  shows "utf8_decode (char_of (0xE0 + cp div 4096) # char_of (0x80 + cp div 64 mod 64)
                      # char_of (0x80 + cp mod 64) # rest)
           = map_option (Cons cp) (utf8_decode rest)"
proof -
  define q where "q = cp div 4096"
  define p where "p = cp div 64 mod 64"
  define m where "m = cp mod 64"
  define a where "a = cp div 64"
  have a1: "a * 64 + m = cp" by (simp add: a_def m_def)
  have "cp div 64 div 64 = cp div (64 * 64)" by (simp only: div_mult2_eq)
  then have e: "cp div 4096 = cp div 64 div 64" by simp
  have a2: "q * 64 + p = a" unfolding q_def p_def a_def e by simp
  have v: "q * 4096 + p * 64 + m = cp"
    unfolding a1 [symmetric] a2 [symmetric] by simp
  have m: "m < 64" by (simp add: m_def)
  have p: "p < 64" by (simp add: p_def)
  have q: "q < 16" using assms by (simp add: q_def)
  have r: "0x800 \<le> q * 4096 + p * 64 + m"
    "\<not> (0xD800 \<le> q * 4096 + p * 64 + m \<and> q * 4096 + p * 64 + m \<le> 0xDFFF)"
    using assms unfolding v by simp_all
  have b0: "(of_char (char_of (0xE0 + q) :: char) :: nat) = 0xE0 + q"
    using q by (intro byte_of_char_of) simp
  have c1: "is_cont (char_of (0x80 + p))" "cont_bits (char_of (0x80 + p)) = p"
    using p by (rule cont_char)+
  have c2: "is_cont (char_of (0x80 + m))" "cont_bits (char_of (0x80 + m)) = m"
    using m by (rule cont_char)+
  have "utf8_decode (char_of (0xE0 + q) # char_of (0x80 + p) # char_of (0x80 + m) # rest)
          = map_option (Cons (q * 4096 + p * 64 + m)) (utf8_decode rest)"
    using q r by (simp add: b0 c1 c2 Let_def)
  then show ?thesis
    unfolding v unfolding q_def p_def m_def .
qed

lemma utf8_decode_4:
  assumes "0x10000 \<le> cp" and "cp < 0x110000"
  shows "utf8_decode (char_of (0xF0 + cp div 262144) # char_of (0x80 + cp div 4096 mod 64)
                      # char_of (0x80 + cp div 64 mod 64) # char_of (0x80 + cp mod 64) # rest)
           = map_option (Cons cp) (utf8_decode rest)"
proof -
  define q where "q = cp div 262144"
  define u where "u = cp div 4096 mod 64"
  define p where "p = cp div 64 mod 64"
  define m where "m = cp mod 64"
  define a where "a = cp div 64"
  define b where "b = cp div 4096"
  have a1: "a * 64 + m = cp" by (simp add: a_def m_def)
  have "cp div 64 div 64 = cp div (64 * 64)" by (simp only: div_mult2_eq)
  then have e: "cp div 4096 = cp div 64 div 64" by simp
  have a2: "b * 64 + p = a" unfolding b_def p_def a_def e by simp
  have "cp div 4096 div 64 = cp div (4096 * 64)" by (simp only: div_mult2_eq)
  then have e': "cp div 262144 = cp div 4096 div 64" by simp
  have a3: "q * 64 + u = b" unfolding q_def u_def b_def e' by simp
  have v: "q * 262144 + u * 4096 + p * 64 + m = cp"
    unfolding a1 [symmetric] a2 [symmetric] a3 [symmetric] by simp
  have m: "m < 64" by (simp add: m_def)
  have p: "p < 64" by (simp add: p_def)
  have u: "u < 64" by (simp add: u_def)
  have q: "q < 8" using assms by (simp add: q_def)
  have r: "0x10000 \<le> q * 262144 + u * 4096 + p * 64 + m"
    "q * 262144 + u * 4096 + p * 64 + m < 0x110000"
    using assms unfolding v by simp_all
  have b0: "(of_char (char_of (0xF0 + q) :: char) :: nat) = 0xF0 + q"
    using q by (intro byte_of_char_of) simp
  have c1: "is_cont (char_of (0x80 + u))" "cont_bits (char_of (0x80 + u)) = u"
    using u by (rule cont_char)+
  have c2: "is_cont (char_of (0x80 + p))" "cont_bits (char_of (0x80 + p)) = p"
    using p by (rule cont_char)+
  have c3: "is_cont (char_of (0x80 + m))" "cont_bits (char_of (0x80 + m)) = m"
    using m by (rule cont_char)+
  have "utf8_decode (char_of (0xF0 + q) # char_of (0x80 + u) # char_of (0x80 + p)
                     # char_of (0x80 + m) # rest)
          = map_option (Cons (q * 262144 + u * 4096 + p * 64 + m)) (utf8_decode rest)"
    using q r by (simp add: b0 c1 c2 c3 Let_def)
  then show ?thesis
    unfolding v unfolding q_def u_def p_def m_def .
qed

lemma utf8_enc1_decode:
  assumes "utf8_enc1 cp = Some bs"
  shows "utf8_decode (bs @ rest) = map_option (Cons cp) (utf8_decode rest)"
proof -
  consider "cp < 0x80" | "0x80 \<le> cp" "cp < 0x800"
    | "0x800 \<le> cp" "cp < 0x10000" "\<not> (0xD800 \<le> cp \<and> cp \<le> 0xDFFF)"
    | "0x10000 \<le> cp" "cp < 0x110000"
    | "0xD800 \<le> cp \<and> cp \<le> 0xDFFF" | "0x110000 \<le> cp"
    by linarith
  then show ?thesis
  proof cases
    case 1
    then show ?thesis using assms utf8_decode_1 [of cp rest] by (auto simp: utf8_enc1_def)
  next
    case 2
    then show ?thesis using assms utf8_decode_2 [of cp rest] by (auto simp: utf8_enc1_def)
  next
    case 3
    then show ?thesis using assms utf8_decode_3 [of cp rest] by (auto simp: utf8_enc1_def)
  next
    case 4
    then show ?thesis using assms utf8_decode_4 [of cp rest] by (auto simp: utf8_enc1_def)
  next
    case 5
    then show ?thesis using assms by (auto simp: utf8_enc1_def)
  next
    case 6
    then show ?thesis using assms by (auto simp: utf8_enc1_def)
  qed
qed

lemma utf8_decode_encode: "utf8_encode s = Some bs \<Longrightarrow> utf8_decode bs = Some s"
proof (induction s arbitrary: bs)
  case Nil
  then show ?case by simp
next
  case (Cons cp s)
  then obtain b t where b: "utf8_enc1 cp = Some b" and t: "utf8_encode s = Some t"
    and bs: "bs = b @ t"
    by (auto split: option.splits)
  show ?case
    unfolding bs utf8_enc1_decode [OF b] using Cons.IH [OF t] by simp
qed

lemma utf8_enc1_scalar: "(utf8_enc1 cp \<noteq> None) = scalar cp"
  by (auto simp: utf8_enc1_def scalar_def)

lemma utf8_encode_scalar: "(utf8_encode s \<noteq> None) = list_all scalar s"
  by (induction s) (auto simp: utf8_enc1_scalar [symmetric] split: option.splits)

lemma scalar_small: "c < 256 \<Longrightarrow> scalar c"
  by (simp add: scalar_def)

lemma of_char_byte: "(of_char c :: nat) < 256"
proof -
  have "(of_char c :: nat) mod 256 < 256" by simp
  then show ?thesis by (simp only: of_char_mod_256)
qed

lemma list_all_scalar_ascii: "list_all scalar (ascii s)"
  unfolding ascii_def list_all_iff using scalar_small [OF of_char_byte] by auto

lemma list_all_scalar_str_nat: "list_all scalar (str_nat n)"
  using str_nat_digits [of n]
  by (auto simp: list_all_iff is_digit_def intro!: scalar_small)

lemma list_all_scalar_str_int: "list_all scalar (str_int i)"
  using list_all_scalar_str_nat by (simp add: str_int_def scalar_small)

lemma list_all_scalar_encode_char: "scalar c \<Longrightarrow> list_all scalar (encode_char c)"
  by (auto simp: encode_char_def hexdigit_def intro!: scalar_small)

lemma list_all_scalar_basestring:
  "list_all scalar s \<Longrightarrow> list_all scalar (encode_basestring s)"
  by (induction s) (simp_all add: encode_basestring_def list_all_scalar_encode_char scalar_small)

lemma list_all_scalar_newline_indent: "list_all scalar (newline_indent l)"
  by (auto simp: newline_indent_def list_all_iff intro!: scalar_small)

lemma iterencode_scalar:
  "text_ok v \<longrightarrow> list_all scalar (iterencode l v)"
  "text_ok_items xs \<longrightarrow> list_all scalar (iterencode_list l xs)"
  "text_ok_members kvs \<longrightarrow> list_all scalar (iterencode_dict l kvs)"
proof (induction l v and l xs and l kvs rule: iterencode_iterencode_list_iterencode_dict.induct)
  case (5 level xs)
  then show ?case
    by (simp add: list_all_scalar_ascii list_all_scalar_newline_indent scalar_small)
next
  case (6 level kvs)
  then show ?case
    by (simp add: list_all_scalar_ascii list_all_scalar_newline_indent scalar_small)
next
  case (8 level x xs)
  then show ?case
    by (simp add: list_all_scalar_newline_indent scalar_small)
next
  case (10 level kv kvs)
  then show ?case
    by (simp add: list_all_scalar_newline_indent list_all_scalar_basestring
          list_all_scalar_ascii scalar_small)
qed (simp_all add: list_all_scalar_ascii list_all_scalar_str_int list_all_scalar_basestring)

lemma utf8_encode_dumps: "text_ok v \<Longrightarrow> \<exists>bs. utf8_encode (json_dumps v) = Some bs"
  using iterencode_scalar(1) [of v 0] utf8_encode_scalar [of "json_dumps v"]
  by (auto simp: json_dumps_def)

lemma load_written:
  assumes "utf8_encode (json_dumps v) = Some bs" and "wf_json v"
    and "node_at fs path \<noteq> Opaque"
  shows "load_tasks (write_file fs path bs) path = Inr v"
proof -
  have n: "node_at (write_file fs path bs) path = File bs"
    using assms(3) by (cases "node_at fs path") (simp_all add: write_file_def)
  have d: "utf8_decode bs = Some (json_dumps v)"
    by (rule utf8_decode_encode [OF assms(1)])
  show ?thesis
    by (simp add: load_tasks_def os_path_exists_def open_read_def n d
          json_loads_dumps [OF assms(2)])
qed

lemma save_then_load_core:
  assumes "save_tasks v fs path = Inr fs'" and "wf_json v" and "node_at fs path \<noteq> Opaque"
  shows "load_tasks fs' path = Inr v"
proof -
  obtain bs where bs: "utf8_encode (json_dumps v) = Some bs" and fs': "fs' = write_file fs path bs"
    using assms(1) by (auto simp: save_tasks_def split: if_splits option.splits)
  show ?thesis
    unfolding fs' by (rule load_written [OF bs assms(2,3)])
qed

lemma save_succeeds:
  assumes "can_write fs path" and "text_ok v"
  shows "\<exists>bs. utf8_encode (json_dumps v) = Some bs \<and> save_tasks v fs path = Inr (write_file fs path bs)"
  using utf8_encode_dumps [OF assms(2)] assms(1) by (auto simp: save_tasks_def)

text \<open>
  C3. A collection that \<open>save_tasks\<close> has written is what \<open>load_tasks\<close> reads back
  from the same path: equal in content and in order, whatever code points its strings
  hold. The save goes through for every writable path and every collection whose
  strings are Unicode text (no lone surrogate, which UTF-8 cannot encode), non-ASCII
  text included. The path must not name something that cannot be opened for reading.
\<close>

theorem save_then_load:
  assumes "wf_json tasks"
  shows "(save_tasks tasks fs path = Inr fs' \<and> node_at fs path \<noteq> Opaque
            \<longrightarrow> load_tasks fs' path = Inr tasks)
         \<and> (can_write fs path \<and> text_ok tasks \<longrightarrow> (\<exists>fs1. save_tasks tasks fs path = Inr fs1))"
  using save_then_load_core [OF _ assms] save_succeeds [of fs path tasks] by blast

theorem save_then_load_witness:
  "(case save_tasks unicode_tasks empty_fs ''tasks.json'' of
      Inl e \<Rightarrow> False
    | Inr fs' \<Rightarrow> load_tasks fs' ''tasks.json'' = Inr unicode_tasks)"
proof -
  have wf: "wf_json unicode_tasks"
    by (simp add: unicode_tasks_def ascii_def)
  have ok: "text_ok unicode_tasks"
    by (simp add: unicode_tasks_def list_all_scalar_ascii) (simp add: scalar_def)
  have w: "can_write empty_fs ''tasks.json''" and n: "node_at empty_fs ''tasks.json'' \<noteq> Opaque"
    by (simp_all add: empty_fs_def)
  note inst = save_then_load [OF wf, of empty_fs "''tasks.json''"]
  obtain fs1 where s: "save_tasks unicode_tasks empty_fs ''tasks.json'' = Inr fs1"
    using inst [THEN conjunct2] w ok by blast
  have "load_tasks fs1 ''tasks.json'' = Inr unicode_tasks"
    using inst [of fs1, THEN conjunct1] s n by blast
  then show ?thesis by (simp add: s)
qed

end
